theory Spec2Isabelle
  imports Complex_Main
begin

section \<open>Values, errors and constants of \<open>pypdl/utls.py\<close>\<close>

text \<open>
  Python exceptions that the modelled functions can raise or catch. The source defines
  no exception class of its own.
\<close>

datatype pyerr =
    ZeroDivisionError
  | TypeError
  | OverflowError
  | KeyError
  | AttributeError
  | FileNotFoundError
  | RecursionError

text \<open>
  A Python float that \<open>json.loads\<close> can return: a finite number, an infinity or a NaN
  (the decoder accepts \<open>Infinity\<close>, \<open>-Infinity\<close> and \<open>NaN\<close>). The zero of either sign is
  \<open>Finite 0\<close>.
\<close>

datatype pyfloat = Finite rat | PosInf | NegInf | NaN

text \<open>
  Values that \<open>json.loads\<close> returns: \<open>None\<close>, booleans, integers, floats, strings, lists
  and dicts with string keys. A \<open>PDict\<close> holds the items of the dict, each key once.
\<close>

datatype pyval =
    PNone
  | PBool bool
  | PInt int
  | PFloat pyfloat
  | PStr string
  | PList "pyval list"
  | PDict "(string \<times> pyval) list"

text \<open>
  The \<open>etag\<close> argument is annotated \<open>Union[str, bool]\<close>; \<open>ENone\<close> stands for a caller
  passing \<open>None\<close>.
\<close>

datatype etag = ENone | EBool bool | EStr string

text \<open>Python truthiness of an etag, as \<open>if etag and ...\<close> tests it.\<close>

fun truthy :: "etag \<Rightarrow> bool" where
  "truthy ENone = False"
| "truthy (EBool b) = b"
| "truthy (EStr s) = (s \<noteq> [])"

text \<open>The value that \<open>json.dumps\<close> followed by \<open>json.loads\<close> gives for an etag.\<close>

fun etag_json :: "etag \<Rightarrow> pyval" where
  "etag_json ENone = PNone"
| "etag_json (EBool b) = PBool b"
| "etag_json (EStr s) = PStr s"

text \<open>
  Python's \<open>==\<close> between a loaded JSON value and an etag. A bool equals the number of
  its value (\<open>True == 1\<close>, \<open>True == 1.0\<close>).
\<close>

fun py_eq :: "pyval \<Rightarrow> etag \<Rightarrow> bool" where
  "py_eq PNone ENone = True"
| "py_eq (PBool a) (EBool b) = (a = b)"
| "py_eq (PInt i) (EBool b) = (i = (if b then 1 else 0))"
| "py_eq (PFloat (Finite r)) (EBool b) = (r = (if b then 1 else 0))"
| "py_eq (PStr s) (EStr t) = (s = t)"
| "py_eq _ _ = False"

text \<open>
  \<open>progress[key]\<close> for a string key: \<open>None\<close> when the subscript raises (\<open>KeyError\<close> on
  a dict without the key, \<open>TypeError\<close> on anything that is not a dict).
\<close>

fun subscript :: "pyval \<Rightarrow> string \<Rightarrow> pyval option" where
  "subscript (PDict kvs) k = map_of kvs k"
| "subscript _ k = None"

text \<open>
  The integer that \<open>range(segments)\<close> accepts; \<open>None\<close> when it raises \<open>TypeError\<close>. A
  bool is an int in Python, a float is not accepted.
\<close>

fun as_int :: "pyval \<Rightarrow> int option" where
  "as_int (PInt i) = Some i"
| "as_int (PBool b) = Some (if b then 1 else 0)"
| "as_int _ = None"

definition MEGABYTE :: int where "MEGABYTE = 1048576"

section \<open>Floats\<close>

text \<open>
  A Python float is an IEEE 754 double: 53 significant bits, binary exponents from
  \<open>-1022\<close> to \<open>1023\<close>, subnormal numbers below the power \<open>-1022\<close> of two, rounding to
  the nearest double with ties to the even significand. A finite double is modelled by
  the rational it denotes.

  \<open>bits n\<close> is the length of the binary numeral of \<open>n\<close>.
\<close>

function bits :: "nat \<Rightarrow> nat" where
  "bits n = (if n = 0 then 0 else Suc (bits (n div 2)))"
  by pat_completeness auto
termination
  by (relation "measure (\<lambda>n. n)") auto

declare bits.simps [simp del]

text \<open>
  The binary exponent \<open>e\<close> of a positive rational \<open>x\<close>: \<open>x\<close> is at least the power \<open>e\<close>
  of two and less than the power \<open>e + 1\<close>.
\<close>

definition expo :: "rat \<Rightarrow> int" where
  "expo x = (if 1 \<le> x then int (bits (nat \<lfloor>x\<rfloor>)) - 1 else - int (bits (nat (\<lceil>1 / x\<rceil> - 1))))"

text \<open>The nearest integer, a tie going to the even one.\<close>

definition nearest_even :: "rat \<Rightarrow> int" where
  "nearest_even y =
     (let f = \<lfloor>y\<rfloor>; d = y - of_int f
      in if d < 1 / 2 then f else if 1 / 2 < d then f + 1 else if even f then f else f + 1)"

text \<open>
  The distance between the doubles around a positive rational \<open>a\<close>: the power
  \<open>e - 52\<close> of two for the exponent \<open>e\<close> of \<open>a\<close>, and the power \<open>-1074\<close> in the
  subnormal range.
\<close>

definition ulp :: "rat \<Rightarrow> rat" where
  "ulp a = power_int 2 (max (expo a) (- 1022) - 52)"

text \<open>
  The rounding of a rational to a double, with the exponent unbounded above: a result
  of magnitude \<open>2 ^ 1024\<close> or more is an overflow, which each operation handles in its
  own way.
\<close>

definition fl :: "rat \<Rightarrow> rat" where
  "fl x = (if x = 0 then 0 else sgn x * (of_int (nearest_even (\<bar>x\<bar> / ulp \<bar>x\<bar>)) * ulp \<bar>x\<bar>))"

definition overflows :: "rat \<Rightarrow> bool" where
  "overflows r \<longleftrightarrow> 2 ^ 1024 \<le> \<bar>r\<bar>"

text \<open>
  The conversion of an int to a float, as \<open>float * int\<close> and \<open>int / float\<close> do it
  implicitly: correctly rounded, \<open>OverflowError\<close> when the int is too large.
\<close>

definition float_of_int :: "int \<Rightarrow> pyerr + rat" where
  "float_of_int i =
     (let r = fl (of_int i) in if overflows r then Inl OverflowError else Inr r)"

text \<open>
  \<open>a / b\<close> for two ints: the correctly rounded quotient, \<open>ZeroDivisionError\<close> for a zero
  divisor, \<open>OverflowError\<close> when the quotient is too large for a float.
\<close>

definition true_div :: "int \<Rightarrow> int \<Rightarrow> pyerr + rat" where
  "true_div a b =
     (if b = 0 then Inl ZeroDivisionError
      else (let r = fl (of_int a / of_int b) in if overflows r then Inl OverflowError else Inr r))"

text \<open>\<open>to_mb\<close>, lines 39 and 40.\<close>

definition to_mb :: "int \<Rightarrow> pyerr + rat" where
  "to_mb size_in_bytes = true_div size_in_bytes MEGABYTE"

text \<open>\<open>int(x)\<close> for a finite float truncates towards zero.\<close>

definition py_int :: "rat \<Rightarrow> int" where
  "py_int x = (if 0 \<le> x then \<lfloor>x\<rfloor> else \<lceil>x\<rceil>)"

text \<open>
  \<open>int(x * k)\<close> for a float \<open>x\<close> and an int \<open>k\<close>, as on lines 71 and 72: the int is
  converted, the product is rounded, and a product that overflows is an infinity, on
  which \<open>int\<close> raises \<open>OverflowError\<close>.
\<close>

definition int_of_product :: "rat \<Rightarrow> int \<Rightarrow> pyerr + int" where
  "int_of_product x k =
     (case float_of_int k of
        Inl e \<Rightarrow> Inl e
      | Inr f \<Rightarrow> (let r = fl (x * f) in if overflows r then Inl OverflowError else Inr (py_int r)))"

text \<open>\<open>str(i)\<close> of an integer, as the f-string \<open>{segment}\<close> renders it.\<close>

definition digit_char :: "nat \<Rightarrow> char" where
  "digit_char d = ''0123456789'' ! d"

function str_nat :: "nat \<Rightarrow> string" where
  "str_nat n = (if n < 10 then [digit_char n] else str_nat (n div 10) @ [digit_char (n mod 10)])"
  by pat_completeness auto
termination
  by (relation "measure (\<lambda>n. n)") auto

declare str_nat.simps [simp del]

definition py_str :: "int \<Rightarrow> string" where
  "py_str i = (if i < 0 then CHR ''-'' # str_nat (nat (- i)) else str_nat (nat i))"

section \<open>The segment table\<close>

text \<open>
  One entry \<open>dic[segment]\<close> of the table. The key \<open>"end"\<close> is the field \<open>end_byte\<close>.
\<close>

record segment =
  start :: int
  end_byte :: int
  segment_size :: int
  path :: string

text \<open>
  The dict that \<open>create_segment_table\<close> returns: the keys \<open>"url"\<close> and \<open>"segments"\<close>, and
  the integer keys of the segments in \<open>tbl_rows\<close>.
\<close>

record segment_table =
  tbl_url :: string
  tbl_segments :: pyval
  tbl_rows :: "int \<rightharpoonup> segment"

text \<open>
  The store of manifests, keyed by path. A file either parses as JSON to a value or
  does not; \<open>write_text(json.dumps(v))\<close> stores a file that parses to \<open>v\<close>.
\<close>

datatype stored = Parsed pyval | Unparsable

type_synonym store = "string \<rightharpoonup> stored"

text \<open>
  Line 49, the clamp of the requested count. \<open>to_mb(size)\<close> is evaluated only when more
  than 5 segments are requested, and its division can raise.
\<close>

definition clamped :: "int \<Rightarrow> int \<Rightarrow> pyerr + int" where
  "clamped segments sz =
     (if segments > 5 then
        (case to_mb sz of
           Inl err \<Rightarrow> Inl err
         | Inr mb \<Rightarrow> Inr (if mb < 50 then 5 else segments))
      else Inr segments)"

text \<open>
  Lines 52 to 57, the \<open>try\<close> block: \<open>Some\<close> of the value it assigns to \<open>segments\<close>, or
  \<open>None\<close> when it assigns nothing (the condition is false, or an exception is caught:
  the file is missing, it does not parse, a subscript raises).
\<close>

definition adopted_segments :: "store \<Rightarrow> string \<Rightarrow> string \<Rightarrow> etag \<Rightarrow> pyval option" where
  "adopted_segments fs progress_file u etag =
     (case fs progress_file of
        None \<Rightarrow> None
      | Some Unparsable \<Rightarrow> None
      | Some (Parsed progress) \<Rightarrow>
          if \<not> truthy etag then None
          else (case subscript progress ''url'' of
                  None \<Rightarrow> None
                | Some pu \<Rightarrow>
                    if pu \<noteq> PStr u then None
                    else (case subscript progress ''etag'' of
                            None \<Rightarrow> None
                          | Some pe \<Rightarrow>
                              if \<not> py_eq pe etag then None
                              else subscript progress ''segments'')))"

text \<open>
  The value of \<open>segments\<close> after the \<open>try\<close> block, for the value \<open>segments1\<close> that line 49
  gave it.
\<close>

definition effective_segments :: "store \<Rightarrow> string \<Rightarrow> string \<Rightarrow> etag \<Rightarrow> int \<Rightarrow> pyval" where
  "effective_segments fs progress_file u etag segments1 =
     (case adopted_segments fs progress_file u etag of
        None \<Rightarrow> PInt segments1
      | Some ps \<Rightarrow> ps)"

text \<open>Lines 71 to 83, the body of the loop for one \<open>segment\<close>.\<close>

definition segment_row :: "string \<Rightarrow> rat \<Rightarrow> int \<Rightarrow> int \<Rightarrow> pyerr + segment" where
  "segment_row filepath partition_size segments segment =
     (case int_of_product partition_size segment of
        Inl err \<Rightarrow> Inl err
      | Inr s \<Rightarrow>
          (case int_of_product partition_size (segment + 1) of
             Inl err \<Rightarrow> Inl err
           | Inr e \<Rightarrow>
               Inr \<lparr>start = s,
                    end_byte = (if segment \<noteq> segments - 1 then e - 1 else e),
                    segment_size = e - s,
                    path = filepath @ ''.'' @ py_str segment @ ''.bin''\<rparr>))"

text \<open>Lines 70 to 83: the loop over the indices that remain, filling \<open>dic\<close>.\<close>

fun segment_rows :: "string \<Rightarrow> rat \<Rightarrow> int \<Rightarrow> int list \<Rightarrow> (int \<rightharpoonup> segment)
    \<Rightarrow> pyerr + (int \<rightharpoonup> segment)" where
  "segment_rows filepath partition_size segments [] dic = Inr dic"
| "segment_rows filepath partition_size segments (segment # rest) dic =
     (case segment_row filepath partition_size segments segment of
        Inl err \<Rightarrow> Inl err
      | Inr row \<Rightarrow> segment_rows filepath partition_size segments rest (dic(segment \<mapsto> row)))"

text \<open>
  Lines 66 to 85 for the value of \<open>segments\<close> after the \<open>try\<close> block. For an int or a bool,
  \<open>size / segments\<close> is the division of two ints and \<open>range(segments)\<close> is empty when
  \<open>segments \<le> 0\<close>. For a float, \<open>size\<close> is converted, a zero divisor raises
  \<open>ZeroDivisionError\<close>, and otherwise the quotient is a float, an infinity or a NaN and
  \<open>range(segments)\<close> raises \<open>TypeError\<close>. For every other value the division raises
  \<open>TypeError\<close>.
\<close>

definition build_table :: "string \<Rightarrow> string \<Rightarrow> int \<Rightarrow> pyval \<Rightarrow> pyerr + segment_table" where
  "build_table u filepath sz segments =
     (case as_int segments of
        Some n \<Rightarrow>
          (case true_div sz n of
             Inl err \<Rightarrow> Inl err
           | Inr partition_size \<Rightarrow>
               (case segment_rows filepath partition_size n [0..n - 1] Map.empty of
                  Inl err \<Rightarrow> Inl err
                | Inr rows \<Rightarrow> Inr \<lparr>tbl_url = u, tbl_segments = segments, tbl_rows = rows\<rparr>))
      | None \<Rightarrow>
          (case segments of
             PFloat f \<Rightarrow>
               (case float_of_int sz of
                  Inl err \<Rightarrow> Inl err
                | Inr s \<Rightarrow> if f = Finite 0 then Inl ZeroDivisionError else Inl TypeError)
           | _ \<Rightarrow> Inl TypeError))"

text \<open>
  \<open>create_segment_table\<close>. An exception on line 49 leaves the store as it is; the
  manifest is written before the division, so the new store is returned also when the
  division or the loop raises.
\<close>

definition create_segment_table ::
  "store \<Rightarrow> string \<Rightarrow> string \<Rightarrow> int \<Rightarrow> int \<Rightarrow> etag \<Rightarrow> (pyerr + segment_table) \<times> store" where
  "create_segment_table fs u filepath segments sz etag =
     (case clamped segments sz of
        Inl err \<Rightarrow> (Inl err, fs)
      | Inr segments1 \<Rightarrow>
          (let progress_file = filepath @ ''.json'';
               segments2 = effective_segments fs progress_file u etag segments1;
               fs' = fs(progress_file \<mapsto>
                       Parsed (PDict [(''url'', PStr u), (''etag'', etag_json etag), (''segments'', segments2)]))
           in (build_table u filepath sz segments2, fs')))"

section \<open>Files and the merge\<close>

text \<open>
  The file system as far as the merge and the workers use it: the bytes of the file at
  each path. Paths are compared as strings.
\<close>

type_synonym fsys = "string \<rightharpoonup> string"

datatype mode = WB | AB

text \<open>\<open>open(path, mode)\<close> for writing: \<open>"wb"\<close> truncates, \<open>"ab"\<close> keeps what is there.\<close>

definition open_file :: "fsys \<Rightarrow> string \<Rightarrow> mode \<Rightarrow> fsys" where
  "open_file fs p m =
     (case m of
        WB \<Rightarrow> fs(p \<mapsto> [])
      | AB \<Rightarrow> (case fs p of None \<Rightarrow> fs(p \<mapsto> []) | Some d \<Rightarrow> fs))"

text \<open>\<open>f.write(chunk)\<close> on the file opened at \<open>p\<close>.\<close>

definition write_file :: "fsys \<Rightarrow> string \<Rightarrow> string \<Rightarrow> fsys" where
  "write_file fs p chunk = fs(p \<mapsto> (case fs p of None \<Rightarrow> [] | Some d \<Rightarrow> d) @ chunk)"

text \<open>The name \<open>f"{filepath}.{i}.bin"\<close> of a segment file.\<close>

definition segment_file :: "string \<Rightarrow> int \<Rightarrow> string" where
  "segment_file filepath i = filepath @ ''.'' @ py_str i @ ''.bin''"





section \<open>The workers\<close>

text \<open>
  The fields of \<open>Basicdown\<close>. The events \<open>self.stop\<close> and \<open>self.error\<close> are shared with
  the other workers and the coordinator; they are the record \<open>signals\<close>, passed through
  every operation.
\<close>

record basicdown =
  curr :: int
  completed :: int
  ident :: int

record signals =
  stop :: bool
  error :: bool

text \<open>
  What the transport gives to one request. \<open>Chunk c s e\<close> is a chunk \<open>c\<close> yielded by
  \<open>iter_content\<close>, with \<open>s\<close> and \<open>e\<close> telling whether another thread has set the stop or
  the error event by the time the worker polls them after the chunk. \<open>Broken\<close> is an
  exception raised by the iteration; the end of the list is the natural end of the
  stream. \<open>Refused\<close> is an exception raised by \<open>requests.get\<close> itself.
\<close>

datatype item = Chunk string bool bool | Broken

datatype response = Refused | Body "item list"

text \<open>
  Lines 127 to 132, the loop over the chunks. The first component of the result tells
  whether the iteration raised.
\<close>

fun stream :: "item list \<Rightarrow> string \<Rightarrow> 'a basicdown_scheme \<times> fsys \<times> signals
    \<Rightarrow> bool \<times> 'a basicdown_scheme \<times> fsys \<times> signals" where
  "stream [] p st = (False, st)"
| "stream (Broken # rest) p st = (True, st)"
| "stream (Chunk c s e # rest) p (self, fs, sg) =
     (let self1 = (if c \<noteq> [] then self\<lparr>curr := curr self + int (length c)\<rparr> else self);
          fs1 = (if c \<noteq> [] then write_file fs p c else fs);
          sg1 = sg\<lparr>stop := stop sg \<or> s, error := error sg \<or> e\<rparr>
      in if c = [] \<or> stop sg1 \<or> error sg1 then (False, self1, fs1, sg1)
         else stream rest p (self1, fs1, sg1))"

text \<open>
  \<open>Basicdown.download\<close>. Every exception is caught and sets the error event; the
  \<open>sleep\<close> and the \<open>print\<close> of the handler are not modelled.
\<close>

definition download :: "'a basicdown_scheme \<Rightarrow> string \<Rightarrow> mode \<Rightarrow> response \<Rightarrow> fsys \<Rightarrow> signals
    \<Rightarrow> 'a basicdown_scheme \<times> fsys \<times> signals" where
  "download self p m resp fs sg =
     (let fs0 = open_file fs p m
      in case resp of
           Refused \<Rightarrow> (self, fs0, sg\<lparr>error := True\<rparr>)
         | Body items \<Rightarrow>
             (case stream items p (self, fs0, sg) of
                (raised, self1, fs1, sg1) \<Rightarrow>
                  if raised then (self1, fs1, sg1\<lparr>error := True\<rparr>) else (self1, fs1, sg1)))"

text \<open>\<open>Simpledown\<close>: the fields \<open>url\<close> and \<open>path\<close>, and the worker.\<close>

record simpledown = basicdown +
  sd_url :: string
  sd_path :: string

definition Simpledown_worker :: "simpledown \<Rightarrow> response \<Rightarrow> fsys \<Rightarrow> signals
    \<Rightarrow> simpledown \<times> fsys \<times> signals" where
  "Simpledown_worker self resp fs sg =
     (case download self (sd_path self) WB resp fs sg of
        (self1, fs1, sg1) \<Rightarrow> (self1\<lparr>completed := 1\<rparr>, fs1, sg1))"

section \<open>Keyword arguments on the heap\<close>

text \<open>
  The keyword arguments are a dict whose values can be dicts shared with the caller
  and with the sibling workers, so they live in a store of objects. A value is an
  immutable atom or a reference to a dict; a dict is the list of its items, in
  insertion order. Addresses below \<open>next\<close> are allocated.
\<close>

datatype hval = HNone | HBool bool | HInt int | HStr string | HRef nat

record heap =
  cells :: "nat \<Rightarrow> (string \<times> hval) list"
  next_free :: nat

text \<open>\<open>d[k] = v\<close> on the items of a dict.\<close>

fun dict_set :: "(string \<times> hval) list \<Rightarrow> string \<Rightarrow> hval \<Rightarrow> (string \<times> hval) list" where
  "dict_set [] k v = [(k, v)]"
| "dict_set ((k', v') # kvs) k v =
     (if k' = k then (k, v) # kvs else (k', v') # dict_set kvs k v)"

text \<open>A new empty dict \<open>{}\<close>.\<close>

definition alloc :: "heap \<Rightarrow> nat \<times> heap" where
  "alloc h = (next_free h, h\<lparr>cells := (cells h)(next_free h := []), next_free := Suc (next_free h)\<rparr>)"

definition store_item :: "heap \<Rightarrow> nat \<Rightarrow> string \<Rightarrow> hval \<Rightarrow> heap" where
  "store_item h a k v = h\<lparr>cells := (cells h)(a := dict_set (cells h a) k v)\<rparr>"

text \<open>
  \<open>copy.deepcopy\<close> with its memo (from the address of an original to the address of its
  copy). Atoms are returned as they are. A dict not yet in the memo is copied into a
  new dict, entered in the memo before its items are copied, as \<open>_deepcopy_dict\<close> does.
  The first argument is the recursion depth left; at depth 0 Python raises
  \<open>RecursionError\<close>.
\<close>

fun deepcopy :: "nat \<Rightarrow> hval \<Rightarrow> (nat \<rightharpoonup> nat) \<Rightarrow> heap \<Rightarrow> (pyerr + hval) \<times> (nat \<rightharpoonup> nat) \<times> heap"
  and copy_items :: "nat \<Rightarrow> nat \<Rightarrow> (string \<times> hval) list \<Rightarrow> (nat \<rightharpoonup> nat) \<Rightarrow> heap
    \<Rightarrow> (pyerr + unit) \<times> (nat \<rightharpoonup> nat) \<times> heap" where
  "deepcopy d (HRef x) memo h =
     (case memo x of
        Some y \<Rightarrow> (Inr (HRef y), memo, h)
      | None \<Rightarrow>
          (case d of
             0 \<Rightarrow> (Inl RecursionError, memo, h)
           | Suc d' \<Rightarrow>
               (case alloc h of
                  (y, h1) \<Rightarrow>
                    (case copy_items d' y (cells h x) (memo(x \<mapsto> y)) h1 of
                       (Inl e, memo', h') \<Rightarrow> (Inl e, memo', h')
                     | (Inr u, memo', h') \<Rightarrow> (Inr (HRef y), memo', h')))))"
| "deepcopy d v memo h = (Inr v, memo, h)"
| "copy_items d y [] memo h = (Inr (), memo, h)"
| "copy_items d y ((k, v) # rest) memo h =
     (case deepcopy d v memo h of
        (Inl e, memo', h') \<Rightarrow> (Inl e, memo', h')
      | (Inr v', memo', h') \<Rightarrow> copy_items d y rest memo' (store_item h' y k v'))"

text \<open>
  \<open>Multidown\<close>: the segment, the table, and the address of the dict \<open>self.kwargs\<close>.
\<close>

record multidown = basicdown +
  segment_id :: int
  segement_table :: segment_table
  kwargs :: nat

text \<open>
  Line 197: \<open>kwargs.setdefault("headers", {}).update({"range": ...})\<close> on the dict at
  address \<open>kw\<close>. The \<open>update\<close> raises \<open>AttributeError\<close> when \<open>"headers"\<close> holds a value
  that is not a dict.
\<close>

definition set_range :: "heap \<Rightarrow> nat \<Rightarrow> string \<Rightarrow> (pyerr + unit) \<times> heap" where
  "set_range h kw rng =
     (case map_of (cells h kw) ''headers'' of
        None \<Rightarrow>
          (case alloc h of
             (a, h1) \<Rightarrow> (Inr (), store_item (store_item h1 kw ''headers'' (HRef a)) a ''range'' (HStr rng)))
      | Some (HRef a) \<Rightarrow> (Inr (), store_item h a ''range'' (HStr rng))
      | Some v \<Rightarrow> (Inl AttributeError, h))"

text \<open>
  Lines 187 to 192: a partial file larger than the segment is deleted; otherwise its
  size becomes \<open>self.curr\<close>.
\<close>

definition inspect_partial :: "multidown \<Rightarrow> segment \<Rightarrow> fsys \<Rightarrow> multidown \<times> fsys" where
  "inspect_partial self row fs =
     (case fs (path row) of
        None \<Rightarrow> (self, fs)
      | Some d \<Rightarrow>
          (let downloaded_size = int (length d)
           in if downloaded_size > segment_size row then (self, fs(path row := None))
              else (self\<lparr>curr := downloaded_size\<rparr>, fs)))"

text \<open>Lines 200 and 201.\<close>

definition mark_completed :: "multidown \<Rightarrow> segment \<Rightarrow> multidown" where
  "mark_completed self row = (if curr self = segment_size row then self\<lparr>completed := 1\<rparr> else self)"

text \<open>
  \<open>Multidown.worker\<close>. \<open>limit\<close> is the recursion depth available to \<open>deepcopy\<close>, and
  \<open>resp\<close> the response of the transport to the ranged request. An exception that the
  worker does not catch is the \<open>Inl\<close> result, with the state as it was left. The copy
  of \<open>self.kwargs\<close> is a dict, so the case of an atom does not arise; it is given the
  \<open>TypeError\<close> that unpacking \<open>**kwargs\<close> would raise.
\<close>

definition Multidown_worker :: "nat \<Rightarrow> multidown \<Rightarrow> response \<Rightarrow> fsys \<Rightarrow> signals \<Rightarrow> heap
    \<Rightarrow> (pyerr + unit) \<times> multidown \<times> fsys \<times> signals \<times> heap" where
  "Multidown_worker limit self resp fs sg h =
     (case tbl_rows (segement_table self) (segment_id self) of
        None \<Rightarrow> (Inl KeyError, self, fs, sg, h)
      | Some row \<Rightarrow>
          (case inspect_partial self row fs of
             (self1, fs1) \<Rightarrow>
               if curr self1 < segment_size row then
                 (case deepcopy limit (HRef (kwargs self1)) Map.empty h of
                    (Inl e, memo, h1) \<Rightarrow> (Inl e, self1, fs1, sg, h1)
                  | (Inr (HRef kw), memo, h1) \<Rightarrow>
                      (case set_range h1 kw
                              (''bytes='' @ py_str (start row + curr self1) @ ''-'' @ py_str (end_byte row)) of
                         (Inl e, h2) \<Rightarrow> (Inl e, self1, fs1, sg, h2)
                       | (Inr u, h2) \<Rightarrow>
                           (case download self1 (path row) AB resp fs1 sg of
                              (self2, fs2, sg2) \<Rightarrow> (Inr (), mark_completed self2 row, fs2, sg2, h2)))
                  | (Inr v, memo, h1) \<Rightarrow> (Inl TypeError, self1, fs1, sg, h1))
               else (Inr (), mark_completed self1 row, fs1, sg, h)))"

section \<open>Auxiliary notions for the statements\<close>

text \<open>
  The boundary \<open>int(partition_size * k)\<close> between segment \<open>k - 1\<close> and segment \<open>k\<close>,
  when nothing overflows.
\<close>

definition boundary :: "rat \<Rightarrow> int \<Rightarrow> int" where
  "boundary q k = py_int (fl (q * fl (of_int k)))"


text \<open>
  The invariant of a deep copy that starts in a heap whose allocated addresses are
  those below \<open>N\<close>: the copies recorded in the memo are new objects, and a new object
  refers to new objects only.
\<close>

definition copy_inv :: "nat \<Rightarrow> (nat \<rightharpoonup> nat) \<Rightarrow> heap \<Rightarrow> bool" where
  "copy_inv N memo h \<longleftrightarrow>
     N \<le> next_free h
     \<and> (\<forall>x y. memo x = Some y \<longrightarrow> N \<le> y \<and> y < next_free h)
     \<and> (\<forall>y k r. N \<le> y \<longrightarrow> y < next_free h \<longrightarrow> (k, HRef r) \<in> set (cells h y) \<longrightarrow> N \<le> r)"

text \<open>A value that is an atom or a reference to a new object.\<close>

definition new_ref :: "nat \<Rightarrow> heap \<Rightarrow> hval \<Rightarrow> bool" where
  "new_ref N h v = (case v of HRef r \<Rightarrow> N \<le> r \<and> r < next_free h | _ \<Rightarrow> True)"

text \<open>\<open>h'\<close> has every object of \<open>h\<close> at an address below \<open>N\<close> as it is in \<open>h\<close>.\<close>

definition extends :: "nat \<Rightarrow> heap \<Rightarrow> heap \<Rightarrow> bool" where
  "extends N h h' \<longleftrightarrow> next_free h \<le> next_free h' \<and> (\<forall>a<N. cells h' a = cells h a)"



section \<open>Rounding to a double\<close>

text \<open>Rules that evaluate the rounding of a numeral.\<close>

lemma floor_rat_numeral: "\<lfloor>numeral a / numeral b :: rat\<rfloor> = numeral a div numeral b"
  by (metis floor_divide_of_int_eq of_int_numeral)

lemma ceiling_rat_numeral: "\<lceil>numeral a / numeral b :: rat\<rceil> = - (- numeral a div numeral b)"
  by (metis ceiling_def floor_divide_of_int_eq minus_divide_left of_int_minus of_int_numeral)

lemmas fl_eval = fl_def ulp_def expo_def bits.simps nearest_even_def Let_def
  floor_rat_numeral ceiling_rat_numeral

text \<open>The exponent.\<close>

lemma bits_pos: "0 < n \<Longrightarrow> 0 < bits n"
  by (subst bits.simps) simp

lemma bits_bounds: "0 < n \<Longrightarrow> 2 ^ (bits n - 1) \<le> n \<and> n < 2 ^ bits n"
proof (induction n rule: bits.induct)
  case (1 n)
  have b: "bits n = Suc (bits (n div 2))" using "1.prems" by (subst bits.simps) simp
  show ?case
  proof (cases "n div 2 = 0")
    case True
    then have "bits (n div 2) = 0" by (simp add: bits.simps[of 0])
    moreover from True "1.prems" have "n = 1" by (simp add: div_eq_0_iff) 
    ultimately show ?thesis using b by simp
  next
    case False
    with "1.IH" "1.prems" have ih: "2 ^ (bits (n div 2) - 1) \<le> n div 2" "n div 2 < 2 ^ bits (n div 2)"
      by auto
    have pos: "0 < bits (n div 2)" using False by (intro bits_pos) simp
    have "2 ^ (bits n - 1) = 2 * 2 ^ (bits (n div 2) - 1)"
      using pos b by (cases "bits (n div 2)") simp_all
    also have "\<dots> \<le> 2 * (n div 2)" using ih(1) by simp
    also have "\<dots> \<le> n" by simp
    finally have lo: "2 ^ (bits n - 1) \<le> n" .
    have "n < 2 * (n div 2) + 2" by presburger
    also have "\<dots> \<le> 2 * 2 ^ bits (n div 2)" using ih(2) by simp
    finally have "n < 2 ^ bits n" using b by simp
    with lo show ?thesis by simp
  qed
qed

lemma bits_bounds_rat:
  assumes "0 < n"
  shows "(2::rat) ^ (bits n - 1) \<le> of_nat n" and "(of_nat n :: rat) + 1 \<le> 2 ^ bits n"
proof -
  from bits_bounds[OF assms] have a: "2 ^ (bits n - 1) \<le> n" and b: "Suc n \<le> 2 ^ bits n" by auto
  from a have "(of_nat (2 ^ (bits n - 1)) :: rat) \<le> of_nat n" by (simp only: of_nat_le_iff)
  then show "(2::rat) ^ (bits n - 1) \<le> of_nat n" by simp
  from b have "(of_nat (Suc n) :: rat) \<le> of_nat (2 ^ bits n)" by (simp only: of_nat_le_iff)
  then show "(of_nat n :: rat) + 1 \<le> 2 ^ bits n" by (simp add: add.commute)
qed

lemma expo_bounds:
  assumes "0 < x"
  shows "power_int 2 (expo x) \<le> x \<and> x < power_int 2 (expo x + 1)"
proof (cases "1 \<le> x")
  case True
  define m where "m = nat \<lfloor>x\<rfloor>"
  have fl1: "1 \<le> \<lfloor>x\<rfloor>" using True by (simp add: le_floor_iff)
  have m0: "0 < m" using fl1 by (simp add: m_def)
  have mx: "of_nat m \<le> x" "x < of_nat m + 1"
  proof -
    have "(of_nat m :: rat) = of_int \<lfloor>x\<rfloor>" using fl1 by (simp add: m_def)
    then show "of_nat m \<le> x" "x < of_nat m + 1"
      using floor_correct[of x] by simp_all
  qed
  note b = bits_bounds_rat[OF m0] bits_pos[OF m0]
  have e: "expo x = int (bits m) - 1" using True by (simp add: expo_def m_def)
  have e1: "power_int (2::rat) (expo x) = 2 ^ (bits m - 1)"
  proof -
    have "expo x = int (bits m - 1)" using b(3) unfolding e by simp
    then show ?thesis by simp
  qed
  have e2: "power_int (2::rat) (expo x + 1) = 2 ^ bits m"
  proof -
    have "expo x + 1 = int (bits m)" unfolding e by simp
    then show ?thesis by simp
  qed
  from b(1) mx(1) have "(2::rat) ^ (bits m - 1) \<le> x" by (rule order_trans)
  moreover from mx(2) b(2) have "x < 2 ^ bits m" by (rule less_le_trans)
  ultimately show ?thesis unfolding e1 e2 by simp
next
  case False
  define y where "y = 1 / x"
  have y: "1 < y" using False assms by (simp add: y_def)
  define m where "m = nat (\<lceil>y\<rceil> - 1)"
  have c: "2 \<le> \<lceil>y\<rceil>" using y by (simp add: le_ceiling_iff)
  have m0: "0 < m" using c by (simp add: m_def)
  have my: "of_nat m < y" "y \<le> of_nat m + 1"
  proof -
    have "(of_nat m :: rat) = of_int \<lceil>y\<rceil> - 1" using c by (simp add: m_def)
    then show "of_nat m < y" "y \<le> of_nat m + 1"
      using ceiling_correct[of y] by simp_all
  qed
  note b = bits_bounds_rat[OF m0] bits_pos[OF m0]
  have e: "expo x = - int (bits m)" using False by (simp add: expo_def m_def y_def)
  have e1: "power_int (2::rat) (expo x) = 1 / 2 ^ bits m"
    unfolding e by (simp add: power_int_minus_divide)
  have e2: "power_int (2::rat) (expo x + 1) = 1 / 2 ^ (bits m - 1)"
  proof -
    have "expo x + 1 = - int (bits m - 1)" using b(3) unfolding e by simp
    then show ?thesis by (simp only: power_int_minus_divide power_int_of_nat)
  qed
  have lo: "(2::rat) ^ (bits m - 1) < y" using b(1) my(1) by (rule le_less_trans)
  have hi: "y \<le> 2 ^ bits m" using my(2) b(2) by (rule order_trans)
  have x: "x = 1 / y" using assms by (simp add: y_def)
  have ypos: "0 < y" using y by simp
  have "1 / 2 ^ bits m \<le> 1 / y"
    using hi ypos by (simp add: frac_le)
  then have r1: "power_int 2 (expo x) \<le> x" by (simp only: e1 x[symmetric])
  have "1 / y < 1 / 2 ^ (bits m - 1)"
    using lo by (simp add: frac_less2)
  then have r2: "x < power_int 2 (expo x + 1)" by (simp only: e2 x[symmetric])
  from r1 r2 show ?thesis by simp
qed

lemma expo_ge: "0 < x \<Longrightarrow> power_int 2 k \<le> x \<Longrightarrow> k \<le> expo x"
proof (rule ccontr)
  assume a: "0 < x" "power_int 2 k \<le> x" "\<not> k \<le> expo x"
  then have "expo x + 1 \<le> k" by simp
  then have "power_int (2::rat) (expo x + 1) \<le> power_int 2 k"
    by (intro power_int_increasing) simp_all
  with expo_bounds[OF a(1)] a(2) show False by simp
qed

lemma expo_le: "0 < x \<Longrightarrow> x < power_int 2 (k + 1) \<Longrightarrow> expo x \<le> k"
proof (rule ccontr)
  assume a: "0 < x" "x < power_int 2 (k + 1)" "\<not> expo x \<le> k"
  then have "k + 1 \<le> expo x" by simp
  then have "power_int (2::rat) (k + 1) \<le> power_int 2 (expo x)"
    by (intro power_int_increasing) simp_all
  with expo_bounds[OF a(1)] a(2) show False by simp
qed

lemma expo_mono: "0 < x \<Longrightarrow> x \<le> y \<Longrightarrow> expo x \<le> expo y"
  using expo_bounds[of x] by (intro expo_ge) auto

lemma expo_power_int: "expo (power_int 2 k) = k"
proof -
  have pos: "(0::rat) < power_int 2 k" by simp
  have "power_int (2::rat) k < power_int 2 (k + 1)"
    by (intro power_int_strict_increasing) simp_all
  from expo_le[OF pos this] expo_ge[OF pos order_refl] show ?thesis by simp
qed

text \<open>Rounding is monotone, exact on the doubles, and has a relative error of at most \<open>1 / 2 ^ 53\<close>.\<close>

lemma nearest_even_range: "\<lfloor>y\<rfloor> \<le> nearest_even y" "nearest_even y \<le> \<lfloor>y\<rfloor> + 1"
  by (simp_all add: nearest_even_def Let_def)

lemma nearest_even_of_int [simp]: "nearest_even (of_int k) = k"
  by (simp add: nearest_even_def Let_def)

lemma nearest_even_numeral [simp]: "nearest_even (numeral n) = numeral n"
  by (metis nearest_even_of_int of_int_numeral)

lemma nearest_even_mono: "y \<le> z \<Longrightarrow> nearest_even y \<le> nearest_even z"
proof (cases "\<lfloor>y\<rfloor> < \<lfloor>z\<rfloor>")
  case True
  with nearest_even_range(2)[of y] nearest_even_range(1)[of z] show ?thesis by linarith
next
  case False
  assume "y \<le> z"
  with False have "\<lfloor>y\<rfloor> = \<lfloor>z\<rfloor>" using floor_mono[of y z] by linarith
  with \<open>y \<le> z\<close> show ?thesis
    by (auto simp: nearest_even_def Let_def)
qed


lemma ulp_pos [simp]: "0 < ulp a"
  by (simp add: ulp_def)

lemma ulp_nonneg [simp]: "0 \<le> ulp a"
  by (rule less_imp_le) simp

lemma ulp_neq_0 [simp]: "ulp a \<noteq> 0"
  by (simp add: ulp_def)

lemma power_int_quotient: "power_int (2::rat) m / power_int 2 n = power_int 2 (m - n)"
  by (rule power_int_diff[symmetric]) simp

lemma fl_pos_eq: "0 < x \<Longrightarrow> fl x = of_int (nearest_even (x / ulp x)) * ulp x"
  by (simp add: fl_def)

lemma fl_0 [simp]: "fl 0 = 0"
  by (simp add: fl_def)

lemma fl_minus: "fl (- x) = - fl x"
  by (simp add: fl_def sgn_minus)

lemma fl_nonneg: "0 \<le> x \<Longrightarrow> 0 \<le> fl x"
proof (cases "x = 0")
  case False
  assume "0 \<le> x"
  with False have pos: "0 < x" by simp
  then have "0 \<le> x / ulp x" by simp
  from nearest_even_mono[OF this] have "0 \<le> nearest_even (x / ulp x)"
    using nearest_even_of_int[of 0] by simp
  then show ?thesis unfolding fl_pos_eq[OF pos] by simp
qed simp

lemma abs_fl: "\<bar>fl x\<bar> = fl \<bar>x\<bar>"
proof (cases "0 \<le> x")
  case True
  then show ?thesis using fl_nonneg[of x] by simp
next
  case False
  then have "0 \<le> - x" by simp
  from fl_nonneg[OF this] False show ?thesis by (simp add: fl_minus)
qed

lemma scale_upper:
  assumes "(a::rat) \<le> power_int 2 (e + 1)"
  shows "of_int (nearest_even (a / power_int 2 (e - 52))) * power_int 2 (e - 52) \<le> power_int (2::rat) (e + 1)"
proof -
  let ?u = "power_int (2::rat) (e - 52)"
  have q: "power_int (2::rat) (e + 1) / ?u = of_int (2 ^ 53)"
  proof -
    have "power_int (2::rat) (e + 1) / ?u = power_int 2 ((e + 1) - (e - 52))"
      by (rule power_int_quotient)
    then show ?thesis by simp
  qed
  have "a / ?u \<le> power_int 2 (e + 1) / ?u"
    using assms by (intro divide_right_mono) simp_all
  then have "nearest_even (a / ?u) \<le> 2 ^ 53"
    using nearest_even_mono[of "a / ?u" "of_int (2 ^ 53)"] unfolding q by simp
  then have "(of_int (nearest_even (a / ?u)) :: rat) \<le> of_int (2 ^ 53)"
    by (simp only: of_int_le_iff)
  then have "of_int (nearest_even (a / ?u)) * ?u \<le> of_int (2 ^ 53) * ?u"
    by (intro mult_right_mono) simp_all
  also have "\<dots> = power_int 2 (e + 1)"
    using q by (simp add: field_simps)
  finally show ?thesis .
qed

lemma scale_lower:
  assumes "power_int 2 e \<le> (a::rat)"
  shows "power_int (2::rat) e \<le> of_int (nearest_even (a / power_int 2 (e - 52))) * power_int 2 (e - 52)"
proof -
  let ?u = "power_int (2::rat) (e - 52)"
  have q: "power_int (2::rat) e / ?u = of_int (2 ^ 52)"
  proof -
    have "power_int (2::rat) e / ?u = power_int 2 (e - (e - 52))"
      by (rule power_int_quotient)
    then show ?thesis by simp
  qed
  have "power_int 2 e / ?u \<le> a / ?u"
    using assms by (intro divide_right_mono) simp_all
  then have "2 ^ 52 \<le> nearest_even (a / ?u)"
    using nearest_even_mono[of "of_int (2 ^ 52)" "a / ?u"] unfolding q by simp
  then have "(of_int (2 ^ 52) :: rat) \<le> of_int (nearest_even (a / ?u))"
    by (simp only: of_int_le_iff)
  then have step: "of_int (2 ^ 52) * ?u \<le> of_int (nearest_even (a / ?u)) * ?u"
    by (intro mult_right_mono) simp_all
  have "power_int 2 e = of_int (2 ^ 52) * ?u"
    using q by (simp add: field_simps)
  also note step
  finally show ?thesis .
qed

lemma fl_mono_pos:
  assumes "0 < x" "x \<le> y"
  shows "fl x \<le> fl y"
proof -
  have ypos: "0 < y" using assms by simp
  define ex where "ex = max (expo x) (- 1022)"
  define ey where "ey = max (expo y) (- 1022)"
  have ux: "ulp x = power_int 2 (ex - 52)" and uy: "ulp y = power_int 2 (ey - 52)"
    by (simp_all add: ulp_def ex_def ey_def)
  have le: "ex \<le> ey" using expo_mono[OF assms] by (simp add: ex_def ey_def)
  show ?thesis
  proof (cases "ex = ey")
    case True
    then have u: "ulp y = ulp x" by (simp add: ux uy)
    have "x / ulp x \<le> y / ulp x" using assms by (intro divide_right_mono) simp_all
    from nearest_even_mono[OF this]
    have "(of_int (nearest_even (x / ulp x)) :: rat) \<le> of_int (nearest_even (y / ulp x))"
      by (simp only: of_int_le_iff)
    then have "of_int (nearest_even (x / ulp x)) * ulp x \<le> of_int (nearest_even (y / ulp x)) * ulp x"
      by (intro mult_right_mono) simp_all
    then show ?thesis unfolding fl_pos_eq[OF assms(1)] fl_pos_eq[OF ypos] u .
  next
    case False
    with le have lt: "ex + 1 \<le> ey" by simp
    then have ey: "ey = expo y" by (auto simp: ey_def ex_def)
    have "x < power_int 2 (expo x + 1)" using expo_bounds[OF assms(1)] by simp
    also have "\<dots> \<le> power_int 2 (ex + 1)"
      by (intro power_int_increasing) (simp_all add: ex_def)
    finally have "x \<le> power_int 2 (ex + 1)" by simp
    from scale_upper[OF this] have a: "fl x \<le> power_int 2 (ex + 1)"
      unfolding fl_pos_eq[OF assms(1)] ux .
    have "power_int 2 ey \<le> y" using expo_bounds[OF ypos] unfolding ey by simp
    from scale_lower[OF this] have b: "power_int 2 ey \<le> fl y"
      unfolding fl_pos_eq[OF ypos] uy .
    have "power_int (2::rat) (ex + 1) \<le> power_int 2 ey"
      using lt by (intro power_int_increasing) simp_all
    with a b show ?thesis by linarith
  qed
qed

lemma fl_mono_nonneg: "0 \<le> x \<Longrightarrow> x \<le> y \<Longrightarrow> fl x \<le> fl y"
  by (cases "x = 0") (auto intro: fl_mono_pos fl_nonneg)

lemma fl_power_int:
  assumes "- 1022 \<le> k"
  shows "fl (power_int 2 k) = power_int 2 k"
proof -
  have pos: "(0::rat) < power_int 2 k" by simp
  have u: "ulp (power_int 2 k) = power_int 2 (k - 52)"
    using assms by (simp add: ulp_def expo_power_int max_def)
  have "power_int (2::rat) k / power_int 2 (k - 52) = power_int 2 (k - (k - 52))"
    by (rule power_int_quotient)
  then have q: "power_int (2::rat) k / power_int 2 (k - 52) = of_int (2 ^ 52)" by simp
  have "fl (power_int 2 k) = of_int (2 ^ 52) * power_int 2 (k - 52)"
    unfolding fl_pos_eq[OF pos] u q nearest_even_of_int ..
  also have "\<dots> = power_int 2 k" using q by (simp add: field_simps)
  finally show ?thesis .
qed

lemma fl_le_power_int:
  assumes "\<bar>x\<bar> \<le> power_int 2 k" "- 1022 \<le> k"
  shows "\<bar>fl x\<bar> \<le> power_int 2 k"
proof -
  have "fl \<bar>x\<bar> \<le> fl (power_int 2 k)"
    using assms(1) by (intro fl_mono_nonneg) simp_all
  then show ?thesis by (simp add: abs_fl fl_power_int[OF assms(2)])
qed



lemmas eval_defs = create_segment_table_def effective_segments_def build_table_def clamped_def
  to_mb_def MEGABYTE_def adopted_segments_def true_div_def float_of_int_def int_of_product_def
  overflows_def segment_row_def py_int_def py_str_def str_nat.simps digit_char_def upto.simps
  fl_eval

section \<open>The rows of a table\<close>

lemma int_of_product_InrD: "int_of_product q k = Inr v \<Longrightarrow> v = boundary q k"
  by (auto simp: int_of_product_def float_of_int_def boundary_def Let_def split: if_splits)

lemma segment_row_InrD:
  assumes "segment_row filepath q n i = Inr r"
  shows "start r = boundary q i"
    and "end_byte r = (if i \<noteq> n - 1 then boundary q (i + 1) - 1 else boundary q (i + 1))"
    and "segment_size r = boundary q (i + 1) - boundary q i"
    and "path r = filepath @ ''.'' @ py_str i @ ''.bin''"
  using assms unfolding segment_row_def
  by (auto split: sum.splits dest!: int_of_product_InrD)

lemma segment_rows_other:
  "segment_rows filepath q n js dic = Inr m \<Longrightarrow> i \<notin> set js \<Longrightarrow> m i = dic i"
  by (induction js arbitrary: dic) (auto split: sum.splits)

lemma segment_rows_row:
  "segment_rows filepath q n js dic = Inr m \<Longrightarrow> distinct js \<Longrightarrow> i \<in> set js \<Longrightarrow>
     \<exists>r. segment_row filepath q n i = Inr r \<and> m i = Some r"
proof (induction js arbitrary: dic)
  case Nil
  then show ?case by simp
next
  case (Cons j js)
  from Cons.prems(1) obtain row where row: "segment_row filepath q n j = Inr row"
    and rest: "segment_rows filepath q n js (dic(j \<mapsto> row)) = Inr m"
    by (auto split: sum.splits)
  show ?case
  proof (cases "i = j")
    case True
    with Cons.prems(2) have "i \<notin> set js" by simp
    from segment_rows_other[OF rest this] row True show ?thesis by simp
  next
    case False
    with Cons.prems have "distinct js" "i \<in> set js" by auto
    from Cons.IH[OF rest this] show ?thesis .
  qed
qed

lemma segment_rows_ok:
  "\<forall>i\<in>set js. \<exists>r. segment_row filepath q n i = Inr r \<Longrightarrow> \<exists>m. segment_rows filepath q n js dic = Inr m"
  by (induction js arbitrary: dic) auto

lemma build_table_InrD:
  assumes "build_table u filepath sz segs = Inr tbl"
  shows "\<exists>n q. as_int segs = Some n \<and> n \<noteq> 0 \<and> true_div sz n = Inr q
           \<and> tbl_url tbl = u \<and> tbl_segments tbl = segs
           \<and> dom (tbl_rows tbl) = {0..<n}
           \<and> (\<forall>i\<in>{0..<n}. \<exists>r. segment_row filepath q n i = Inr r \<and> tbl_rows tbl i = Some r)"
proof -
  from assms obtain n where n: "as_int segs = Some n"
    by (auto simp: build_table_def split: option.splits pyval.splits sum.splits if_splits)
  from assms n obtain q where q: "true_div sz n = Inr q"
    by (auto simp: build_table_def split: sum.splits)
  from assms n q obtain rows where rows: "segment_rows filepath q n [0..n - 1] Map.empty = Inr rows"
    and tbl: "tbl = \<lparr>tbl_url = u, tbl_segments = segs, tbl_rows = rows\<rparr>"
    by (auto simp: build_table_def split: sum.splits)
  have n0: "n \<noteq> 0" using q by (auto simp: true_div_def)
  have row: "\<exists>r. segment_row filepath q n i = Inr r \<and> rows i = Some r" if "i \<in> {0..<n}" for i
    using segment_rows_row[OF rows, of i] that by auto
  have out: "rows i = None" if "i \<notin> {0..<n}" for i
    using segment_rows_other[OF rows, of i] that by auto
  have "dom rows = {0..<n}"
  proof (rule set_eqI)
    fix i show "i \<in> dom rows \<longleftrightarrow> i \<in> {0..<n}"
      using row[of i] out[of i] by (cases "i \<in> {0..<n}") auto
  qed
  with n q n0 row show ?thesis unfolding tbl by auto
qed

lemma create_segment_table_pass:
  assumes "clamped segments sz = Inr k"
  shows "create_segment_table fs u filepath segments sz etag =
     (build_table u filepath sz (effective_segments fs (filepath @ ''.json'') u etag k),
      fs(filepath @ ''.json'' \<mapsto>
           Parsed (PDict [(''url'', PStr u), (''etag'', etag_json etag),
                          (''segments'', effective_segments fs (filepath @ ''.json'') u etag k)])))"
  by (simp add: create_segment_table_def Let_def assms)

lemma create_segment_table_InrD:
  assumes "fst (create_segment_table fs u filepath segments sz etag) = Inr tbl"
  shows "\<exists>k. clamped segments sz = Inr k
           \<and> build_table u filepath sz (effective_segments fs (filepath @ ''.json'') u etag k) = Inr tbl"
  using assms by (auto simp: create_segment_table_def Let_def split: sum.splits)

section \<open>The boundaries\<close>

lemma boundary_0 [simp]: "boundary q 0 = 0"
  by (simp add: boundary_def py_int_def)






section \<open>No overflow for moderate numbers\<close>

lemma not_overflows: "\<bar>r\<bar> \<le> power_int 2 1000 \<Longrightarrow> \<not> overflows r"
proof -
  assume "\<bar>r\<bar> \<le> power_int 2 1000"
  moreover have "power_int (2::rat) 1000 < power_int 2 1024"
    by (intro power_int_strict_increasing) simp_all
  ultimately have "\<bar>r\<bar> < 2 ^ 1024" by simp
  then show ?thesis by (simp add: overflows_def)
qed

lemma fl_small:
  assumes "\<bar>x\<bar> \<le> power_int 2 k" "0 \<le> k" "k \<le> 1000"
  shows "\<bar>fl x\<bar> \<le> power_int 2 k" and "\<not> overflows (fl x)"
proof -
  show a: "\<bar>fl x\<bar> \<le> power_int 2 k" using assms(1,2) by (intro fl_le_power_int) simp_all
  have "power_int (2::rat) k \<le> power_int 2 1000"
    using assms(3) by (intro power_int_increasing) simp_all
  with a have "\<bar>fl x\<bar> \<le> power_int 2 1000" by linarith
  then show "\<not> overflows (fl x)" by (rule not_overflows)
qed

lemma abs_of_int_le:
  assumes "\<bar>i\<bar> \<le> 2 ^ 500"
  shows "\<bar>of_int i :: rat\<bar> \<le> power_int 2 500"
proof -
  have "(of_int \<bar>i\<bar> :: rat) \<le> of_int (2 ^ 500)" using assms by (simp only: of_int_le_iff)
  then show ?thesis by simp
qed

lemma float_of_int_ok:
  assumes "\<bar>i\<bar> \<le> 2 ^ 500"
  shows "\<exists>f. float_of_int i = Inr f \<and> \<bar>f\<bar> \<le> power_int 2 500"
  using fl_small[OF abs_of_int_le[OF assms]] by (simp add: float_of_int_def Let_def)

lemma true_div_ok:
  assumes "\<bar>sz\<bar> \<le> 2 ^ 500" "n \<noteq> 0"
  shows "\<exists>q. true_div sz n = Inr q \<and> \<bar>q\<bar> \<le> power_int 2 500"
proof -
  have "(1::rat) \<le> \<bar>of_int n\<bar>"
  proof -
    have "1 \<le> \<bar>n\<bar>" using assms(2) by simp
    then have "(of_int 1 :: rat) \<le> of_int \<bar>n\<bar>" by (simp only: of_int_le_iff)
    then show ?thesis by simp
  qed
  then have "\<bar>of_int sz / of_int n :: rat\<bar> \<le> \<bar>of_int sz\<bar> / 1"
    unfolding abs_divide by (intro frac_le) simp_all
  with abs_of_int_le[OF assms(1)] have "\<bar>of_int sz / of_int n :: rat\<bar> \<le> power_int 2 500" by simp
  from fl_small[OF this] assms(2) show ?thesis by (simp add: true_div_def Let_def)
qed

lemma int_of_product_ok:
  assumes "\<bar>q\<bar> \<le> power_int 2 500" "\<bar>k\<bar> \<le> 2 ^ 500"
  shows "\<exists>v. int_of_product q k = Inr v"
proof -
  from float_of_int_ok[OF assms(2)] obtain f where f: "float_of_int k = Inr f" "\<bar>f\<bar> \<le> power_int 2 500"
    by auto
  have "\<bar>q * f\<bar> \<le> power_int 2 500 * power_int 2 500"
    unfolding abs_mult using assms(1) f(2) by (intro mult_mono) simp_all
  also have "\<dots> = power_int (2::rat) (500 + 500)" by (rule power_int_add[symmetric]) simp
  finally have "\<bar>q * f\<bar> \<le> power_int 2 1000" by simp
  from fl_small(2)[OF this] f(1) show ?thesis by (simp add: int_of_product_def Let_def)
qed

lemma build_table_ok:
  assumes "as_int segs = Some n" "n \<noteq> 0" "\<bar>sz\<bar> \<le> 2 ^ 500" "n \<le> 2 ^ 500"
  shows "\<exists>tbl. build_table u filepath sz segs = Inr tbl"
proof -
  from true_div_ok[OF assms(3,2)] obtain q where q: "true_div sz n = Inr q" "\<bar>q\<bar> \<le> power_int 2 500"
    by auto
  have "\<exists>r. segment_row filepath q n i = Inr r" if "i \<in> set [0..n - 1]" for i
  proof -
    from that assms(4) have "\<bar>i\<bar> \<le> 2 ^ 500" "\<bar>i + 1\<bar> \<le> 2 ^ 500" by auto
    from int_of_product_ok[OF q(2) this(1)] int_of_product_ok[OF q(2) this(2)]
    show ?thesis by (auto simp: segment_row_def)
  qed
  then have "\<forall>i\<in>set [0..n - 1]. \<exists>r. segment_row filepath q n i = Inr r" by blast
  from segment_rows_ok[OF this] obtain m where "segment_rows filepath q n [0..n - 1] Map.empty = Inr m"
    by blast
  with assms(1) q(1) show ?thesis by (simp add: build_table_def)
qed

section \<open>The clamp\<close>

lemma fl_nonpos: "x \<le> 0 \<Longrightarrow> fl x \<le> 0"
  using fl_nonneg[of "- x"] by (simp add: fl_minus)

lemma to_mb_cases:
  "to_mb sz = Inl OverflowError \<or> (\<exists>mb. to_mb sz = Inr mb \<and> (mb < 50 \<longleftrightarrow> sz < 50 * 1048576))"
proof -
  define x :: rat where "x = of_int sz / 1048576"
  have "fl x < 50 \<longleftrightarrow> sz < 50 * 1048576"
  proof
    assume a: "fl x < 50"
    show "sz < 50 * 1048576"
    proof (rule ccontr)
      assume "\<not> sz < 50 * 1048576"
      then have "52428800 \<le> sz" by simp
      then have "(of_int 52428800 :: rat) \<le> of_int sz" by (simp only: of_int_le_iff)
      then have "50 \<le> x" by (simp add: x_def)
      then have "fl 50 \<le> fl x" by (intro fl_mono_nonneg) simp_all
      moreover have "fl 50 = 50" by (simp add: fl_eval)
      ultimately show False using a by simp
    qed
  next
    assume "sz < 50 * 1048576"
    then have "sz \<le> 52428799" by simp
    then have "(of_int sz :: rat) \<le> of_int 52428799" by (simp only: of_int_le_iff)
    then have le: "x \<le> 52428799 / 1048576" by (simp add: x_def)
    have v: "fl (52428799 / 1048576) = 52428799 / 1048576" by (simp add: fl_eval)
    show "fl x < 50"
    proof (cases "0 \<le> x")
      case True
      from fl_mono_nonneg[OF this le] show ?thesis unfolding v by simp
    next
      case False
      then have "fl x \<le> 0" by (intro fl_nonpos) simp
      then show ?thesis by simp
    qed
  qed
  then show ?thesis
    by (simp add: to_mb_def true_div_def MEGABYTE_def Let_def x_def)
qed

lemma clamped_cases:
  "clamped segments sz =
     (if 5 < segments \<and> to_mb sz = Inl OverflowError then Inl OverflowError
      else Inr (if 5 < segments \<and> sz < 50 * 1048576 then 5 else segments))"
  using to_mb_cases[of sz] by (auto simp: clamped_def)

lemma to_mb_ok: "\<bar>sz\<bar> \<le> 2 ^ 500 \<Longrightarrow> to_mb sz \<noteq> Inl OverflowError"
  using true_div_ok[of sz MEGABYTE] by (auto simp: to_mb_def MEGABYTE_def)

section \<open>Examples of the rounding\<close>

text \<open>
  For 52,428,810 bytes and 11 segments the quotient is not a double, and the rounded
  product for the last boundary is below the size: the last row ends at byte 52428809.
\<close>

lemma quotient_52428810_by_11: "true_div 52428810 11 = Inr (5117727825413585 / 1073741824)"
  by (simp add: true_div_def overflows_def fl_eval)

lemma last_row_52428810_by_11:
  "segment_row ''f'' (5117727825413585 / 1073741824) 11 10 =
     Inr \<lparr>start = 47662554, end_byte = 52428809, segment_size = 4766255, path = ''f.10.bin''\<rparr>"
  by (simp add: segment_row_def int_of_product_def float_of_int_def overflows_def py_int_def
        py_str_def str_nat.simps digit_char_def fl_eval)

text \<open>
  A size of \<open>2 ^ 1100\<close> bytes overflows in \<open>to_mb\<close>: a call that requests more than 5
  segments raises on line 49, before the manifest is read or written.
\<close>

lemma to_mb_overflow: "to_mb (2 ^ 1100) = Inl OverflowError"
proof -
  have "(of_int (2 ^ 1100) / of_int 1048576 :: rat) = 2 ^ 1100 / 2 ^ 20" by simp
  also have "\<dots> = 2 ^ 1080" by (simp only: power_diff[symmetric, of "2::rat" 20 1100]) simp
  also have "\<dots> = power_int 2 1080" by simp
  finally have q: "(of_int (2 ^ 1100) / of_int 1048576 :: rat) = power_int 2 1080" .
  have f: "fl (power_int 2 1080) = power_int 2 1080" by (rule fl_power_int) simp
  have "(2::rat) ^ 1024 \<le> 2 ^ 1080" by (rule power_increasing) simp_all
  then have "overflows (power_int 2 1080)" by (simp add: overflows_def)
  then show ?thesis
    by (simp only: to_mb_def true_div_def MEGABYTE_def q f Let_def) simp
qed

lemma plan_overflow_on_line_49:
  "create_segment_table fs u filepath 6 (2 ^ 1100) etag = (Inl OverflowError, fs)"
  by (simp only: create_segment_table_def clamped_def to_mb_overflow) simp

section \<open>The partition of the resource\<close>




section \<open>Planning: examples, failures and resumption\<close>

lemma py_eq_etag_json: "py_eq (etag_json e) e"
  by (cases e) auto

lemma adopted_after_write:
  assumes "truthy etag"
  shows "adopted_segments
           (fs(pf \<mapsto> Parsed (PDict [(''url'', PStr u), (''etag'', etag_json etag), (''segments'', s)])))
           pf u etag = Some s"
  using assms by (simp add: adopted_segments_def py_eq_etag_json)

lemma adopted_without_etag: "\<not> truthy etag \<Longrightarrow> adopted_segments fs pf u etag = None"
  by (simp add: adopted_segments_def split: option.splits stored.splits)

text \<open>
  Claim C2 as stated fails: the last row of the table for 1,000,000 bytes and 4 segments
  ends at 1000000, not at 999999.
\<close>

theorem four_segments_counterexample:
  "map_option end_byte
     (tbl_rows (projr (fst (create_segment_table Map.empty ''u'' ''f'' 4 1000000 (EStr ''e'')))) 3)
     = Some 1000000
   \<and> tbl_rows (projr (fst (create_segment_table Map.empty ''u'' ''f'' 4 1000000 (EStr ''e'')))) 3
     \<noteq> Some \<lparr>start = 750000, end_byte = 999999, segment_size = 250000, path = ''f.3.bin''\<rparr>"
  by (simp add: eval_defs)

text \<open>
  Claim C2, as amended: for a resource of 1,000,000 bytes, a requested count of 4 and no
  manifest at the destination, the table has exactly the four rows \<open>[0, 249999]\<close>,
  \<open>[250000, 499999]\<close>, \<open>[500000, 749999]\<close> and \<open>[750000, 1000000]\<close>, each with
  \<open>segment_size\<close> 250000. The stored end of the last row is the size of the resource,
  as the comment on line 75 shows it (\<open>[0-99, 100-200]\<close>), not the last byte 999999.
\<close>

theorem four_segments:
  assumes "fs (filepath @ ''.json'') = None"
  shows "\<exists>tbl. fst (create_segment_table fs u filepath 4 1000000 etag) = Inr tbl
     \<and> tbl_segments tbl = PInt 4
     \<and> dom (tbl_rows tbl) = {0..<4}
     \<and> tbl_rows tbl 0 = Some \<lparr>start = 0, end_byte = 249999, segment_size = 250000, path = filepath @ ''.0.bin''\<rparr>
     \<and> tbl_rows tbl 1 = Some \<lparr>start = 250000, end_byte = 499999, segment_size = 250000, path = filepath @ ''.1.bin''\<rparr>
     \<and> tbl_rows tbl 2 = Some \<lparr>start = 500000, end_byte = 749999, segment_size = 250000, path = filepath @ ''.2.bin''\<rparr>
     \<and> tbl_rows tbl 3 = Some \<lparr>start = 750000, end_byte = 1000000, segment_size = 250000, path = filepath @ ''.3.bin''\<rparr>"
proof -
  have cl: "clamped 4 1000000 = Inr 4" by (simp add: clamped_def)
  have ad: "adopted_segments fs (filepath @ ''.json'') u etag = None"
    using assms by (simp add: adopted_segments_def)
  have eff: "effective_segments fs (filepath @ ''.json'') u etag 4 = PInt 4"
    by (simp add: effective_segments_def ad)
  have "build_table u filepath 1000000 (PInt 4) =
      Inr \<lparr>tbl_url = u, tbl_segments = PInt 4,
        tbl_rows = [0 \<mapsto> \<lparr>start = 0, end_byte = 249999, segment_size = 250000, path = filepath @ ''.0.bin''\<rparr>,
                    1 \<mapsto> \<lparr>start = 250000, end_byte = 499999, segment_size = 250000, path = filepath @ ''.1.bin''\<rparr>,
                    2 \<mapsto> \<lparr>start = 500000, end_byte = 749999, segment_size = 250000, path = filepath @ ''.2.bin''\<rparr>,
                    3 \<mapsto> \<lparr>start = 750000, end_byte = 1000000, segment_size = 250000, path = filepath @ ''.3.bin''\<rparr>]\<rparr>"
    by (simp add: build_table_def true_div_def float_of_int_def int_of_product_def overflows_def
          segment_row_def py_int_def py_str_def str_nat.simps digit_char_def upto.simps fl_eval)
  then have t: "fst (create_segment_table fs u filepath 4 1000000 etag) =
      Inr \<lparr>tbl_url = u, tbl_segments = PInt 4,
        tbl_rows = [0 \<mapsto> \<lparr>start = 0, end_byte = 249999, segment_size = 250000, path = filepath @ ''.0.bin''\<rparr>,
                    1 \<mapsto> \<lparr>start = 250000, end_byte = 499999, segment_size = 250000, path = filepath @ ''.1.bin''\<rparr>,
                    2 \<mapsto> \<lparr>start = 500000, end_byte = 749999, segment_size = 250000, path = filepath @ ''.2.bin''\<rparr>,
                    3 \<mapsto> \<lparr>start = 750000, end_byte = 1000000, segment_size = 250000, path = filepath @ ''.3.bin''\<rparr>]\<rparr>"
    by (simp only: create_segment_table_pass[OF cl] eff fst_conv)
  have "{0..<4::int} = {0, 1, 2, 3}" by auto
  then show ?thesis unfolding t by auto
qed

theorem four_segments_witness:
  "\<exists>tbl. fst (create_segment_table Map.empty ''u'' ''f'' 4 1000000 (EStr ''e'')) = Inr tbl
     \<and> tbl_rows tbl 3 = Some \<lparr>start = 750000, end_byte = 1000000, segment_size = 250000, path = ''f.3.bin''\<rparr>"
proof -
  have h: "Map.empty (''f'' @ ''.json'') = (None :: stored option)" by simp
  from four_segments[where fs = Map.empty and filepath = "''f''" and u = "''u''" and etag = "EStr ''e''", OF h]
  show ?thesis by auto
qed

text \<open>
  Claim C5 as stated fails: in the table for 1,000,000 bytes and 4 segments, row 0 has
  \<open>segment_size\<close> 250000 while \<open>end - start\<close> is 249999, and the last row has
  \<open>segment_size\<close> 250000 while \<open>end - start + 1\<close> is 250001.
\<close>

theorem segment_size_counterexample:
  "map_option segment_size
     (tbl_rows (projr (fst (create_segment_table Map.empty ''u'' ''f'' 4 1000000 (EStr ''e'')))) 0)
     = Some 250000
   \<and> map_option (\<lambda>r. end_byte r - start r)
     (tbl_rows (projr (fst (create_segment_table Map.empty ''u'' ''f'' 4 1000000 (EStr ''e'')))) 0)
     = Some 249999
   \<and> map_option segment_size
     (tbl_rows (projr (fst (create_segment_table Map.empty ''u'' ''f'' 4 1000000 (EStr ''e'')))) 3)
     = Some 250000
   \<and> map_option (\<lambda>r. end_byte r - start r + 1)
     (tbl_rows (projr (fst (create_segment_table Map.empty ''u'' ''f'' 4 1000000 (EStr ''e'')))) 3)
     = Some 250001"
  by (simp add: eval_defs)

text \<open>
  Claim C5, as amended: in every table that \<open>create_segment_table\<close> returns, the stored
  \<open>segment_size\<close> of a row is \<open>end - start\<close> for the last row and \<open>end - start + 1\<close> for
  every other row.
\<close>

theorem segment_size_of_row:
  assumes "fst (create_segment_table fs u filepath segments sz etag) = Inr tbl"
      and "as_int (tbl_segments tbl) = Some n"
      and "tbl_rows tbl i = Some r"
  shows "segment_size r = (if i = n - 1 then end_byte r - start r else end_byte r - start r + 1)"
proof -
  from create_segment_table_InrD[OF assms(1)] obtain k
    where "build_table u filepath sz (effective_segments fs (filepath @ ''.json'') u etag k) = Inr tbl"
    by blast
  from build_table_InrD[OF this] assms(2) obtain q
    where dom: "dom (tbl_rows tbl) = {0..<n}"
    and rows: "\<forall>i\<in>{0..<n}. \<exists>r. segment_row filepath q n i = Inr r \<and> tbl_rows tbl i = Some r"
    by auto
  from assms(3) dom have "i \<in> {0..<n}" by blast
  with rows obtain r' where "segment_row filepath q n i = Inr r'" "tbl_rows tbl i = Some r'" by blast
  with assms(3) have "segment_row filepath q n i = Inr r" by simp
  from segment_row_InrD(1,2,3)[OF this] show ?thesis by simp
qed

theorem segment_size_of_row_witness:
  "tbl_rows (projr (fst (create_segment_table Map.empty ''u'' ''f'' 3 12 (EStr ''e'')))) 0
     = Some \<lparr>start = 0, end_byte = 3, segment_size = 4, path = ''f.0.bin''\<rparr>
   \<and> segment_size \<lparr>start = 0, end_byte = 3, segment_size = 4, path = ''f.0.bin''\<rparr>
     = end_byte \<lparr>start = 0, end_byte = 3, segment_size = 4, path = ''f.0.bin''\<rparr>
       - start \<lparr>start = 0, end_byte = 3, segment_size = 4, path = ''f.0.bin''\<rparr> + 1"
proof -
  let ?t = "projr (fst (create_segment_table Map.empty ''u'' ''f'' 3 12 (EStr ''e'')))"
  have h1: "fst (create_segment_table Map.empty ''u'' ''f'' 3 12 (EStr ''e'')) = Inr ?t"
    by (simp add: eval_defs)
  have h2: "as_int (tbl_segments ?t) = Some 3"
    by (simp add: eval_defs)
  have h3: "tbl_rows ?t 0 = Some \<lparr>start = 0, end_byte = 3, segment_size = 4, path = ''f.0.bin''\<rparr>"
    by (simp add: eval_defs)
  from segment_size_of_row[OF h1 h2 h3] h3 show ?thesis by simp
qed

text \<open>
  Claim C6 as stated fails: for a resource of size 0 the call returns a table with one
  empty row, and for the segment count \<open>-1\<close> it returns a table without rows.
\<close>

theorem plan_failure_counterexample:
  "fst (create_segment_table Map.empty ''u'' ''f'' 1 0 (EStr ''e'')) =
     Inr \<lparr>tbl_url = ''u'', tbl_segments = PInt 1,
          tbl_rows = [0 \<mapsto> \<lparr>start = 0, end_byte = 0, segment_size = 0, path = ''f.0.bin''\<rparr>]\<rparr>
   \<and> fst (create_segment_table Map.empty ''u'' ''f'' (- 1) 1000 (EStr ''e'')) =
     Inr \<lparr>tbl_url = ''u'', tbl_segments = PInt (- 1), tbl_rows = Map.empty\<rparr>"
  by (simp add: eval_defs)

text \<open>
  Claim C6, as amended: for a size of magnitude at most \<open>2 ^ 500\<close> and an effective
  segment count of at most \<open>2 ^ 500\<close>, where no float overflows, \<open>create_segment_table\<close>
  raises exactly when the effective segment count, \<open>k\<close> from line 49 or the value adopted
  from the manifest, is zero (the int 0, \<open>False\<close> or the float 0.0: \<open>ZeroDivisionError\<close>)
  or is not an integer (a float other than zero, a string, \<open>None\<close>, a list or a dict:
  \<open>TypeError\<close>). A size of 0 and a negative count raise nothing.
\<close>

theorem plan_failure:
  assumes "\<bar>sz\<bar> \<le> 2 ^ 500"
      and "clamped segments sz = Inr k"
      and "\<forall>n. as_int (effective_segments fs (filepath @ ''.json'') u etag k) = Some n \<longrightarrow> n \<le> 2 ^ 500"
  shows "fst (create_segment_table fs u filepath segments sz etag) = Inl e \<longleftrightarrow>
     (case effective_segments fs (filepath @ ''.json'') u etag k of
        PInt n \<Rightarrow> n = 0 \<and> e = ZeroDivisionError
      | PBool b \<Rightarrow> \<not> b \<and> e = ZeroDivisionError
      | PFloat f \<Rightarrow> e = (if f = Finite 0 then ZeroDivisionError else TypeError)
      | _ \<Rightarrow> e = TypeError)"
proof -
  define segs where "segs = effective_segments fs (filepath @ ''.json'') u etag k"
  have int_case: "build_table u filepath sz segs = Inl e \<longleftrightarrow> n = 0 \<and> e = ZeroDivisionError"
    if n: "as_int segs = Some n" for n
  proof (cases "n = 0")
    case True
    with n show ?thesis by (auto simp: build_table_def true_div_def)
  next
    case False
    from assms(3) n have "n \<le> 2 ^ 500" unfolding segs_def by blast
    from build_table_ok[OF n False assms(1) this, where u = u and filepath = filepath] False
    show ?thesis by auto
  qed
  from float_of_int_ok[OF assms(1)] obtain s where s: "float_of_int sz = Inr s" by blast
  have "build_table u filepath sz segs = Inl e \<longleftrightarrow>
     (case segs of
        PInt n \<Rightarrow> n = 0 \<and> e = ZeroDivisionError
      | PBool b \<Rightarrow> \<not> b \<and> e = ZeroDivisionError
      | PFloat f \<Rightarrow> e = (if f = Finite 0 then ZeroDivisionError else TypeError)
      | _ \<Rightarrow> e = TypeError)"
  proof (cases segs)
    case (PInt n)
    with int_case[of n] show ?thesis by simp
  next
    case (PBool b)
    with int_case[of "if b then 1 else 0"] show ?thesis by (cases b) simp_all
  next
    case (PFloat f)
    with s show ?thesis by (auto simp: build_table_def)
  qed (auto simp: build_table_def)
  then show ?thesis unfolding segs_def by (simp only: create_segment_table_pass[OF assms(2)] fst_conv)
qed

theorem plan_failure_witness:
  "fst (create_segment_table
         [''f.json'' \<mapsto> Parsed (PDict [(''url'', PStr ''u''), (''etag'', PStr ''e''), (''segments'', PFloat (Finite 4))])]
         ''u'' ''f'' 4 1000000 (EStr ''e'')) = Inl TypeError"
proof -
  let ?fs = "[''f.json'' \<mapsto> Parsed (PDict [(''url'', PStr ''u''), (''etag'', PStr ''e''),
                (''segments'', PFloat (Finite 4))])]"
  have eff: "effective_segments ?fs (''f'' @ ''.json'') ''u'' (EStr ''e'') 4 = PFloat (Finite 4)"
    by (simp add: effective_segments_def adopted_segments_def)
  have h1: "\<bar>1000000 :: int\<bar> \<le> 2 ^ 500" by simp
  have h2: "clamped 4 1000000 = Inr 4" by (simp add: clamped_def)
  have h3: "\<forall>n. as_int (effective_segments ?fs (''f'' @ ''.json'') ''u'' (EStr ''e'') 4) = Some n \<longrightarrow> n \<le> 2 ^ 500"
    unfolding eff by simp
  from plan_failure[OF h1 h2 h3, of TypeError] show ?thesis unfolding eff by simp
qed

text \<open>
  Claim C7 as stated fails: without an etag, a second call that requests 2 segments
  returns a table of 2 segments after a first call that planned 4.
\<close>

theorem replan_counterexample:
  "fst (create_segment_table (snd (create_segment_table Map.empty ''u'' ''f'' 4 1000000 ENone))
          ''u'' ''f'' 2 1000000 ENone)
   \<noteq> fst (create_segment_table Map.empty ''u'' ''f'' 4 1000000 ENone)"
  by (simp add: eval_defs)

text \<open>
  Claim C7, as amended: when the etag is truthy (a validator is supplied) and line 49
  raises in neither call, so that the first call has written its manifest, a second call
  with the same url, filepath, size and etag returns what the first call returned and
  leaves the store as the first call left it, for every requested count of the second
  call.
\<close>

theorem replan_idempotent:
  assumes "truthy etag"
      and "clamped segments sz = Inr k"
      and "clamped segments' sz = Inr k'"
  shows "create_segment_table (snd (create_segment_table fs u filepath segments sz etag))
           u filepath segments' sz etag
         = create_segment_table fs u filepath segments sz etag"
proof -
  define pf where "pf = filepath @ ''.json''"
  define s where "s = effective_segments fs pf u etag k"
  define fs' where "fs' = fs(pf \<mapsto> Parsed (PDict [(''url'', PStr u), (''etag'', etag_json etag), (''segments'', s)]))"
  have first: "create_segment_table fs u filepath segments sz etag = (build_table u filepath sz s, fs')"
    by (simp only: create_segment_table_pass[OF assms(2)] s_def fs'_def pf_def)
  have "adopted_segments fs' pf u etag = Some s"
    unfolding fs'_def using assms(1) by (rule adopted_after_write)
  then have eff: "effective_segments fs' pf u etag k' = s"
    by (simp add: effective_segments_def)
  have same: "fs'(pf \<mapsto> Parsed (PDict [(''url'', PStr u), (''etag'', etag_json etag), (''segments'', s)])) = fs'"
    unfolding fs'_def by simp
  have "create_segment_table fs' u filepath segments' sz etag = (build_table u filepath sz s, fs')"
    by (simp only: create_segment_table_pass[OF assms(3)] pf_def[symmetric] eff same)
  then show ?thesis unfolding first by simp
qed

theorem replan_idempotent_witness:
  "truthy (EStr ''e'')
   \<and> create_segment_table (snd (create_segment_table Map.empty ''u'' ''f'' 4 1000000 (EStr ''e'')))
        ''u'' ''f'' 2 1000000 (EStr ''e'')
     = create_segment_table Map.empty ''u'' ''f'' 4 1000000 (EStr ''e'')"
proof -
  have h: "truthy (EStr ''e'')" by simp
  have h1: "clamped 4 1000000 = Inr 4" by (simp add: clamped_def)
  have h2: "clamped 2 1000000 = Inr 2" by (simp add: clamped_def)
  from replan_idempotent[OF h h1 h2] h show ?thesis by blast
qed

text \<open>
  A first call that raises on line 49 writes no manifest, and a second call that
  requests at most 5 segments then writes one: the two calls differ.
\<close>

lemma replan_after_overflow:
  "create_segment_table (snd (create_segment_table Map.empty ''u'' ''f'' 6 (2 ^ 1100) (EStr ''e'')))
      ''u'' ''f'' 2 (2 ^ 1100) (EStr ''e'')
   \<noteq> create_segment_table Map.empty ''u'' ''f'' 6 (2 ^ 1100) (EStr ''e'')"
proof -
  have cl: "clamped 2 (2 ^ 1100) = Inr 2" by (simp add: clamped_def)
  have "snd (create_segment_table Map.empty ''u'' ''f'' 2 (2 ^ 1100) (EStr ''e'')) ''f.json'' \<noteq> None"
    by (simp only: create_segment_table_pass[OF cl] snd_conv) simp
  then have "snd (create_segment_table Map.empty ''u'' ''f'' 2 (2 ^ 1100) (EStr ''e'')) \<noteq> Map.empty"
    by auto
  then show ?thesis by (auto simp only: plan_overflow_on_line_49 snd_conv)
qed

text \<open>
  Claim C8 as stated fails: with the etag \<open>False\<close> and a manifest of the same url that
  records 2 segments, a call that requests 4 segments plans 4.
\<close>

theorem no_etag_counterexample:
  "map_sum id tbl_segments
     (fst (create_segment_table
        [''f.json'' \<mapsto> Parsed (PDict [(''url'', PStr ''u''), (''etag'', PBool False), (''segments'', PInt 2)])]
        ''u'' ''f'' 4 1000000 (EBool False)))
   = Inr (PInt 4)"
  by (simp add: eval_defs)

text \<open>
  Claim C8, as amended: when no etag is supplied (the etag is falsy), the manifest is
  never adopted: the call plans the clamped requested count, whatever the store holds.
\<close>

theorem no_etag_no_adoption:
  assumes "\<not> truthy etag"
  shows "fst (create_segment_table fs u filepath segments sz etag)
           = (case clamped segments sz of
                Inl err \<Rightarrow> Inl err
              | Inr k \<Rightarrow> build_table u filepath sz (PInt k))
       \<and> (clamped segments sz = Inr 0 \<longrightarrow>
            fst (create_segment_table fs u filepath segments sz etag) = Inl ZeroDivisionError)
       \<and> (\<forall>tbl. fst (create_segment_table fs u filepath segments sz etag) = Inr tbl \<longrightarrow>
            tbl_url tbl = u \<and> (\<exists>k. clamped segments sz = Inr k \<and> tbl_segments tbl = PInt k))"
proof -
  have b: "build_table u filepath sz (PInt 0) = Inl ZeroDivisionError"
    by (simp add: build_table_def true_div_def)
  show ?thesis
  proof (cases "clamped segments sz")
    case (Inl err)
    then show ?thesis by (simp add: create_segment_table_def)
  next
    case (Inr k)
    have eff: "effective_segments fs (filepath @ ''.json'') u etag k = PInt k"
      by (simp add: effective_segments_def adopted_without_etag[OF assms])
    have a: "fst (create_segment_table fs u filepath segments sz etag) = build_table u filepath sz (PInt k)"
      by (simp only: create_segment_table_pass[OF Inr] eff fst_conv)
    have c: "tbl_url tbl = u \<and> tbl_segments tbl = PInt k"
      if "build_table u filepath sz (PInt k) = Inr tbl" for tbl
      using build_table_InrD[OF that] by auto
    from a b c Inr show ?thesis by auto
  qed
qed

theorem no_etag_no_adoption_witness:
  "fst (create_segment_table
        [''f.json'' \<mapsto> Parsed (PDict [(''url'', PStr ''u''), (''etag'', PNone), (''segments'', PInt 2)])]
        ''u'' ''f'' 3 12 ENone)
   = Inr \<lparr>tbl_url = ''u'', tbl_segments = PInt 3,
          tbl_rows = [0 \<mapsto> \<lparr>start = 0, end_byte = 3, segment_size = 4, path = ''f.0.bin''\<rparr>,
                      1 \<mapsto> \<lparr>start = 4, end_byte = 7, segment_size = 4, path = ''f.1.bin''\<rparr>,
                      2 \<mapsto> \<lparr>start = 8, end_byte = 12, segment_size = 4, path = ''f.2.bin''\<rparr>]\<rparr>"
proof -
  have h: "\<not> truthy ENone" by simp
  from no_etag_no_adoption[OF h] show ?thesis
    by (simp add: clamped_def build_table_def true_div_def float_of_int_def int_of_product_def
          overflows_def segment_row_def py_int_def py_str_def str_nat.simps digit_char_def
          upto.simps fl_eval)
qed

text \<open>
  Claim C9 as stated fails: with a manifest of the same url and etag that records 3
  segments, a call that requests 10 segments for 10 MB plans 3 segments, not 5.
\<close>

theorem clamp_counterexample:
  "map_sum id tbl_segments
     (fst (create_segment_table
        [''f.json'' \<mapsto> Parsed (PDict [(''url'', PStr ''u''), (''etag'', PStr ''e''), (''segments'', PInt 3)])]
        ''u'' ''f'' 10 10485760 (EStr ''e'')))
   = Inr (PInt 3)"
  by (simp add: eval_defs)

text \<open>
  Claim C9, as amended: when the \<open>try\<close> block adopts no count from a manifest, the
  effective count is 5 if more than 5 segments are requested for a resource smaller
  than 50 MB (52,428,800 bytes), and the requested count otherwise; so 10 requested
  segments for 10 MB give 5. The call raises \<open>OverflowError\<close> on line 49 when more than 5
  segments are requested for a size whose count of megabytes is too large for a float.
\<close>

theorem clamp_without_adoption:
  assumes "adopted_segments fs (filepath @ ''.json'') u etag = None"
  shows "fst (create_segment_table fs u filepath segments sz etag)
           = (if 5 < segments \<and> to_mb sz = Inl OverflowError then Inl OverflowError
              else build_table u filepath sz
                     (PInt (if 5 < segments \<and> sz < 50 * 1048576 then 5 else segments)))
       \<and> (segments = 0 \<longrightarrow>
            fst (create_segment_table fs u filepath segments sz etag) = Inl ZeroDivisionError)
       \<and> (\<forall>tbl. fst (create_segment_table fs u filepath segments sz etag) = Inr tbl \<longrightarrow>
            tbl_url tbl = u
            \<and> tbl_segments tbl = PInt (if 5 < segments \<and> sz < 50 * 1048576 then 5 else segments))"
proof -
  define n where "n = (if 5 < segments \<and> sz < 50 * 1048576 then 5 else segments)"
  have b: "build_table u filepath sz (PInt 0) = Inl ZeroDivisionError"
    by (simp add: build_table_def true_div_def)
  show ?thesis
  proof (cases "5 < segments \<and> to_mb sz = Inl OverflowError")
    case True
    then have "clamped segments sz = Inl OverflowError" by (simp add: clamped_cases)
    then have "fst (create_segment_table fs u filepath segments sz etag) = Inl OverflowError"
      by (simp add: create_segment_table_def)
    with True show ?thesis by auto
  next
    case False
    then have cl: "clamped segments sz = Inr n" by (simp add: clamped_cases n_def)
    have eff: "effective_segments fs (filepath @ ''.json'') u etag n = PInt n"
      by (simp add: effective_segments_def assms)
    have a: "fst (create_segment_table fs u filepath segments sz etag) = build_table u filepath sz (PInt n)"
      by (simp only: create_segment_table_pass[OF cl] eff fst_conv)
    have c: "tbl_url tbl = u \<and> tbl_segments tbl = PInt n"
      if "build_table u filepath sz (PInt n) = Inr tbl" for tbl
      using build_table_InrD[OF that] by auto
    have z: "segments = 0 \<Longrightarrow> n = 0" by (simp add: n_def)
    from a b c z False show ?thesis unfolding n_def[symmetric] by auto
  qed
qed

theorem clamp_without_adoption_witness:
  "adopted_segments Map.empty (''f'' @ ''.json'') ''u'' (EStr ''e'') = None
   \<and> map_sum id tbl_segments (fst (create_segment_table Map.empty ''u'' ''f'' 10 10485760 (EStr ''e'')))
     = Inr (PInt 5)"
proof -
  have h: "adopted_segments Map.empty (''f'' @ ''.json'') ''u'' (EStr ''e'') = None"
    by (simp add: adopted_segments_def)
  have ok: "to_mb 10485760 \<noteq> Inl OverflowError"
    by (rule to_mb_ok) simp
  have "\<exists>tbl. build_table ''u'' ''f'' 10485760 (PInt 5) = Inr tbl"
    by (rule build_table_ok[where n = 5]) simp_all
  then obtain tbl where t: "build_table ''u'' ''f'' 10485760 (PInt 5) = Inr tbl" by blast
  from clamp_without_adoption[OF h, of 10 10485760] t h ok show ?thesis
    by simp
qed

section \<open>The merge and the single-stream worker\<close>





lemma segment_file_neq_dest [simp]: "segment_file filepath i \<noteq> filepath"
  by (simp add: segment_file_def)

lemma dest_neq_segment_file [simp]: "filepath \<noteq> segment_file filepath i"
  by (simp add: segment_file_def)







text \<open>
  Claim C4 as stated fails: \<open>completed\<close> is 1 after a download that the stop event
  interrupted after the first chunk, after one that the error event interrupted, and
  after one whose transport raised; each left only the first chunk in the file.
\<close>

theorem simpledown_completed_counterexample:
  "(case Simpledown_worker \<lparr>curr = 0, completed = 0, ident = 0, sd_url = ''u'', sd_path = ''f''\<rparr>
           (Body [Chunk ''ab'' True False, Chunk ''cd'' False False])
           Map.empty \<lparr>stop = False, error = False\<rparr> of
      (self, fs, sg) \<Rightarrow> completed self = 1 \<and> fs ''f'' = Some ''ab'' \<and> stop sg)
   \<and> (case Simpledown_worker \<lparr>curr = 0, completed = 0, ident = 0, sd_url = ''u'', sd_path = ''f''\<rparr>
           (Body [Chunk ''ab'' False True, Chunk ''cd'' False False])
           Map.empty \<lparr>stop = False, error = False\<rparr> of
      (self, fs, sg) \<Rightarrow> completed self = 1 \<and> fs ''f'' = Some ''ab'' \<and> error sg)
   \<and> (case Simpledown_worker \<lparr>curr = 0, completed = 0, ident = 0, sd_url = ''u'', sd_path = ''f''\<rparr>
           (Body [Chunk ''ab'' False False, Broken])
           Map.empty \<lparr>stop = False, error = False\<rparr> of
      (self, fs, sg) \<Rightarrow> completed self = 1 \<and> fs ''f'' = Some ''ab'' \<and> error sg)"
  by (simp add: Simpledown_worker_def download_def open_file_def write_file_def Let_def)

text \<open>
  Claim C4, as amended: \<open>Simpledown.worker\<close> sets \<open>completed\<close> to 1 whenever it returns,
  whatever ended the download.
\<close>

theorem simpledown_always_completed:
  "completed (fst (Simpledown_worker self resp fs sg)) = 1"
  by (simp add: Simpledown_worker_def split: prod.splits)

section \<open>The segment worker and its keyword arguments\<close>

lemma extends_refl: "extends N h h"
  by (simp add: extends_def)

lemma extends_trans: "extends N h h1 \<Longrightarrow> extends N h1 h2 \<Longrightarrow> extends N h h2"
  by (auto simp: extends_def)

lemma new_ref_mono: "new_ref N h v \<Longrightarrow> extends N h h' \<Longrightarrow> new_ref N h' v"
  by (auto simp: new_ref_def extends_def split: hval.splits)

lemma dict_set_subset: "set (dict_set c k v) \<subseteq> insert (k, v) (set c)"
  by (induction c k v rule: dict_set.induct) auto

lemma copy_inv_alloc:
  assumes "copy_inv N memo h" "alloc h = (y, h1)"
  shows "copy_inv N (memo(x \<mapsto> y)) h1"
  using assms by (auto simp: copy_inv_def alloc_def less_Suc_eq)

lemma alloc_fresh:
  assumes "copy_inv N memo h" "alloc h = (y, h1)"
  shows "N \<le> y" "y < next_free h1" "extends N h h1"
  using assms by (auto simp: copy_inv_def alloc_def extends_def)

lemma copy_inv_store:
  assumes "copy_inv N memo h" "N \<le> y" "new_ref N h v"
  shows "copy_inv N memo (store_item h y k v)" "extends N h (store_item h y k v)"
proof -
  have "N \<le> r" if "(k', HRef r) \<in> set (dict_set (cells h y) k v)" "y < next_free h" for k' r
  proof -
    from that(1) dict_set_subset[of "cells h y" k v]
    have "(k', HRef r) = (k, v) \<or> (k', HRef r) \<in> set (cells h y)" by auto
    then show ?thesis
      using assms that(2) by (auto simp: copy_inv_def new_ref_def)
  qed
  then show "copy_inv N memo (store_item h y k v)"
    using assms(1) by (auto simp: copy_inv_def store_item_def)
  show "extends N h (store_item h y k v)"
    using assms(2) by (auto simp: extends_def store_item_def)
qed

lemma next_free_store [simp]: "next_free (store_item h y k v) = next_free h"
  by (simp add: store_item_def)

lemma deepcopy_frame:
  "copy_inv N memo h \<Longrightarrow> deepcopy d v memo h = (r, memo', h') \<Longrightarrow>
     copy_inv N memo' h' \<and> extends N h h' \<and> (\<forall>v'. r = Inr v' \<longrightarrow> new_ref N h' v')"
  "copy_inv N memo2 h2 \<Longrightarrow> N \<le> y \<Longrightarrow> y < next_free h2 \<Longrightarrow>
     copy_items d2 y items memo2 h2 = (r2, memo2', h2') \<Longrightarrow>
     copy_inv N memo2' h2' \<and> extends N h2 h2'"
proof (induction d v memo h and d2 y items memo2 h2 arbitrary: r memo' h' and r2 memo2' h2'
    rule: deepcopy_copy_items.induct)
  case (1 d x memo h)
  show ?case
  proof (cases "memo x")
    case (Some y)
    with "1.prems" show ?thesis
      by (auto simp: extends_refl new_ref_def copy_inv_def)
  next
    case None
    show ?thesis
    proof (cases d)
      case 0
      with None "1.prems" show ?thesis by (auto simp: extends_refl)
    next
      case (Suc d')
      obtain y h1 where al: "alloc h = (y, h1)" by (cases "alloc h")
      obtain r1 m1 h1' where ci: "copy_items d' y (cells h x) (memo(x \<mapsto> y)) h1 = (r1, m1, h1')"
        by (cases "copy_items d' y (cells h x) (memo(x \<mapsto> y)) h1")
      note a0 = copy_inv_alloc[OF "1.prems"(1) al, of x]
      note a = a0 alloc_fresh[OF "1.prems"(1) al]
      from "1.IH"[OF None Suc al[symmetric] a(1) a(2) a(3) ci]
      have inv: "copy_inv N m1 h1'" and ext: "extends N h1 h1'" by auto
      have res: "memo' = m1" "h' = h1'" "\<And>v'. r = Inr v' \<Longrightarrow> v' = HRef y"
        using "1.prems"(2) None Suc al ci by (auto split: sum.splits)
      have "y < next_free h1'" using a(3) ext by (auto simp: extends_def)
      with a(2) have "new_ref N h1' (HRef y)" by (simp add: new_ref_def)
      with inv extends_trans[OF a(4) ext] res show ?thesis by auto
    qed
  qed
next
  case (3 d y memo h)
  then show ?case by (auto simp: extends_refl)
next
  case (4 d y k v rest memo h)
  obtain r1 m1 h1 where dc: "deepcopy d v memo h = (r1, m1, h1)"
    by (cases "deepcopy d v memo h")
  from "4.IH"(1)[OF "4.prems"(1) dc]
  have inv1: "copy_inv N m1 h1" and ext1: "extends N h h1"
    and nr: "\<And>v'. r1 = Inr v' \<Longrightarrow> new_ref N h1 v'" by auto
  show ?case
  proof (cases r1)
    case (Inl e)
    with "4.prems"(4) dc inv1 ext1 show ?thesis by auto
  next
    case (Inr v')
    have y1: "y < next_free h1" using "4.prems"(3) ext1 by (auto simp: extends_def)
    note s = copy_inv_store[OF inv1 "4.prems"(2) nr[OF Inr], of k]
    have ci: "copy_items d y rest m1 (store_item h1 y k v') = (r2, memo2', h2')"
      using "4.prems"(4) dc Inr by simp
    from "4.IH"(2)[OF dc[symmetric] Inr refl s(1) "4.prems"(2) _ ci] y1
    have "copy_inv N memo2' h2'" "extends N (store_item h1 y k v') h2'" by auto
    with extends_trans[OF ext1 s(2)] extends_trans show ?thesis by blast
  qed
qed (auto simp: extends_refl new_ref_def)

lemma set_range_frame:
  assumes "copy_inv N memo h" "N \<le> kw" "kw < next_free h" "set_range h kw rng = (r, h')"
  shows "extends N h h'"
proof (cases "map_of (cells h kw) ''headers''")
  case None
  obtain a h1 where al: "alloc h = (a, h1)" by (cases "alloc h")
  have "N \<le> a" "extends N h h1" using al assms(1) by (auto simp: alloc_def extends_def copy_inv_def)
  moreover have "h' = store_item (store_item h1 kw ''headers'' (HRef a)) a ''range'' (HStr rng)"
    using assms(4) None al by (simp add: set_range_def)
  ultimately show ?thesis
    using assms(2) by (auto simp: extends_def store_item_def)
next
  case (Some v)
  show ?thesis
  proof (cases v)
    case (HRef a)
    from Some HRef have "(''headers'', HRef a) \<in> set (cells h kw)" by (auto dest: map_of_SomeD)
    with assms(1-3) have "N \<le> a" by (auto simp: copy_inv_def)
    moreover have "h' = store_item h a ''range'' (HStr rng)"
      using assms(4) Some HRef by (simp add: set_range_def)
    ultimately show ?thesis by (auto simp: extends_def store_item_def)
  qed (use assms(4) Some in \<open>auto simp: set_range_def extends_refl\<close>)
qed

lemma stream_kwargs:
  "stream items p (self, fs, sg) = (b, self', fs', sg') \<Longrightarrow> kwargs self' = kwargs (self :: multidown)"
proof (induction items arbitrary: self fs sg)
  case Nil
  then show ?case by simp
next
  case (Cons it items)
  show ?case
  proof (cases it)
    case Broken
    with Cons.prems show ?thesis by simp
  next
    case (Chunk c s e)
    with Cons.prems Cons.IH show ?thesis
      by (auto simp: Let_def split: if_splits)
  qed
qed

lemma download_kwargs:
  "download self p m resp fs sg = (self', fs', sg') \<Longrightarrow> kwargs self' = kwargs (self :: multidown)"
  unfolding download_def Let_def
  by (auto split: response.splits prod.splits if_splits dest: stream_kwargs)

lemma copy_inv_start: "copy_inv (next_free h) Map.empty h"
  by (simp add: copy_inv_def)

lemma inspect_partial_kwargs:
  "inspect_partial self row fs = (self1, fs1) \<Longrightarrow> kwargs self1 = kwargs self"
  by (auto simp: inspect_partial_def Let_def split: option.splits if_splits)

lemma mark_completed_kwargs [simp]: "kwargs (mark_completed self row) = kwargs self"
  by (simp add: mark_completed_def)

lemma worker_extends:
  assumes "Multidown_worker limit self resp fs sg h = (r, self', fs', sg', h')"
  shows "extends (next_free h) h h' \<and> kwargs self' = kwargs self"
proof (cases "tbl_rows (segement_table self) (segment_id self)")
  case None
  with assms show ?thesis by (simp add: Multidown_worker_def extends_refl)
next
  case (Some row)
  obtain self1 fs1 where ip: "inspect_partial self row fs = (self1, fs1)"
    by (cases "inspect_partial self row fs")
  note k1 = inspect_partial_kwargs[OF ip]
  obtain r1 m1 h1 where dc: "deepcopy limit (HRef (kwargs self1)) Map.empty h = (r1, m1, h1)"
    by (cases "deepcopy limit (HRef (kwargs self1)) Map.empty h")
  from deepcopy_frame(1)[OF copy_inv_start dc]
  have inv1: "copy_inv (next_free h) m1 h1" and ext1: "extends (next_free h) h h1"
    and nr: "\<And>v'. r1 = Inr v' \<Longrightarrow> new_ref (next_free h) h1 v'" by auto
  show ?thesis
  proof (cases "curr self1 < segment_size row")
    case False
    with assms Some ip k1 show ?thesis
      by (auto simp: Multidown_worker_def extends_refl)
  next
    case True
    show ?thesis
    proof (cases r1)
      case (Inl e)
      with assms Some ip True dc ext1 k1 show ?thesis
        by (auto simp: Multidown_worker_def simp del: deepcopy.simps)
    next
      case (Inr v)
      show ?thesis
      proof (cases v)
        case (HRef kw)
        obtain r2 h2 where sr:
          "set_range h1 kw (''bytes='' @ py_str (start row + curr self1) @ ''-'' @ py_str (end_byte row))
             = (r2, h2)"
          by (metis surj_pair)
        from nr[OF Inr] HRef have kw: "next_free h \<le> kw" "kw < next_free h1"
          by (simp_all add: new_ref_def)
        from set_range_frame[OF inv1 kw sr] ext1 have ext2: "extends (next_free h) h h2"
          by (blast intro: extends_trans)
        obtain self2 fs2 sg2 where dl: "download self1 (path row) AB resp fs1 sg = (self2, fs2, sg2)"
          by (metis prod_cases3)
        from download_kwargs[OF dl] k1 have k2: "kwargs self2 = kwargs self" by simp
        from assms Some ip True dc Inr HRef sr dl ext2 k1 k2 show ?thesis
          by (auto simp: Multidown_worker_def simp del: deepcopy.simps
                   split: sum.splits)
      qed (use assms Some ip True dc Inr ext1 k1 in
            \<open>auto simp: Multidown_worker_def simp del: deepcopy.simps\<close>)
    qed
  qed
qed

text \<open>
  Claim C10: a run of \<open>Multidown.worker\<close> leaves every object that existed before the
  run as it was, whatever the result of the run: the dict \<open>self.kwargs\<close>, a headers dict
  in it that the caller and the sibling workers share, and everything else they refer
  to. The range header goes into the deep copy. \<open>self.kwargs\<close> still names the same
  dict.
\<close>

theorem worker_keeps_kwargs:
  assumes "Multidown_worker limit self resp fs sg h = (r, self', fs', sg', h')"
  shows "kwargs self' = kwargs self \<and> (\<forall>a<next_free h. cells h' a = cells h a)"
  using worker_extends[OF assms] by (simp add: extends_def)

theorem worker_keeps_kwargs_witness:
  "(case Multidown_worker 2
           \<lparr>curr = 0, completed = 0, ident = 0, segment_id = 0,
            segement_table = \<lparr>tbl_url = ''u'', tbl_segments = PInt 1,
              tbl_rows = [0 \<mapsto> \<lparr>start = 0, end_byte = 4, segment_size = 4, path = ''f.0.bin''\<rparr>]\<rparr>,
            kwargs = 0\<rparr>
           (Body [Chunk ''abcd'' False False]) Map.empty \<lparr>stop = False, error = False\<rparr>
           \<lparr>cells = (\<lambda>a. [])(0 := [(''headers'', HRef 1)], 1 := [(''User-Agent'', HStr ''x'')]),
            next_free = 2\<rparr> of
      (r, self', fs', sg', h') \<Rightarrow>
        r = Inr () \<and> completed self' = 1 \<and> kwargs self' = 0
        \<and> cells h' 0 = [(''headers'', HRef 1)]
        \<and> cells h' 1 = [(''User-Agent'', HStr ''x'')]
        \<and> cells h' 2 = [(''headers'', HRef 3)]
        \<and> cells h' 3 = [(''User-Agent'', HStr ''x''), (''range'', HStr ''bytes=0-4'')])"
proof -
  let ?self = "\<lparr>curr = 0, completed = 0, ident = 0, segment_id = 0,
            segement_table = \<lparr>tbl_url = ''u'', tbl_segments = PInt 1,
              tbl_rows = [0 \<mapsto> \<lparr>start = 0, end_byte = 4, segment_size = 4, path = ''f.0.bin''\<rparr>]\<rparr>,
            kwargs = 0\<rparr>"
  let ?h = "\<lparr>cells = (\<lambda>a. [])(0 := [(''headers'', HRef 1)], 1 := [(''User-Agent'', HStr ''x'')]),
            next_free = 2\<rparr>"
  obtain r self' fs' sg' h' where ev:
    "Multidown_worker 2 ?self (Body [Chunk ''abcd'' False False]) Map.empty
       \<lparr>stop = False, error = False\<rparr> ?h = (r, self', fs', sg', h')"
    by (metis prod_cases5)
  from worker_keeps_kwargs[OF ev]
  have old: "kwargs self' = 0" "cells h' 0 = [(''headers'', HRef 1)]"
    "cells h' 1 = [(''User-Agent'', HStr ''x'')]"
    by simp_all
  from ev have new: "r = Inr ()" "completed self' = 1" "cells h' 2 = [(''headers'', HRef 3)]"
    "cells h' 3 = [(''User-Agent'', HStr ''x''), (''range'', HStr ''bytes=0-4'')]"
    by (auto simp: Multidown_worker_def inspect_partial_def alloc_def store_item_def set_range_def
          download_def open_file_def write_file_def mark_completed_def py_str_def str_nat.simps
          digit_char_def numeral_2_eq_2 Let_def)
  from old new show ?thesis unfolding ev by simp
qed

end
